theory Spec2Isabelle
  imports Main "HOL-Library.Word" "HOL-Library.Multiset"
begin

unbundle bit_operations_syntax

section \<open>Data model of package fastrand\<close>

text \<open>
  Bytes are 8-bit words, \<open>uint64\<close> is a 64-bit word and Go's \<open>int\<close> is the signed
  reading of a 64-bit word, as on the 64-bit platforms the package is written for
  (its own comment in \<open>Intn\<close> bounds \<open>n\<close> by \<open>math.MaxUint64/2\<close>). Values of
  \<open>go_int\<close> are read with \<open>sint\<close>.
\<close>

type_synonym byte = "8 word"
type_synonym uint64 = "64 word"
type_synonym go_int = "64 word"

text \<open>Every panic of the source is a value of \<open>error\<close>.\<close>

datatype error =
    NoEntropy          \<comment> \<open>\<open>panic("crypto: no entropy available")\<close>\<close>
  | IntnArg            \<comment> \<open>\<open>panic("fastrand: argument to Intn is <= 0")\<close>\<close>
  | MakeSliceLen       \<comment> \<open>run-time panic of \<open>make\<close>: length out of range\<close>
  | OutOfRange         \<comment> \<open>index out of range, or an 8-byte access that leaves the slice\<close>
  | RandIntArg         \<comment> \<open>\<open>panic("crypto/rand: argument to Int is <= 0")\<close>\<close>

text \<open>
  The hash function (blake2b-256 in the source) is an external collaborator; it enters
  every definition as the parameter \<open>H\<close>, the digest of a byte sequence.
\<close>

type_synonym hashfn = "byte list \<Rightarrow> byte list"

subsection \<open>Go slices and \<open>append\<close>\<close>

text \<open>
  A slice is a window \<open>[lo, hi)\<close> on a backing array; its capacity reaches from
  \<open>lo\<close> to the end of the array.
\<close>

record slice =
  backing :: "byte list"
  lo :: nat
  hi :: nat

definition len_s :: "slice \<Rightarrow> nat" where
  "len_s s = hi s - lo s"

definition cap_s :: "slice \<Rightarrow> nat" where
  "cap_s s = length (backing s) - lo s"

definition contents :: "slice \<Rightarrow> byte list" where
  "contents s = take (len_s s) (drop (lo s) (backing s))"

text \<open>The nil slice (the zero value of the field \<open>buf\<close>).\<close>

definition nil_slice :: slice where
  "nil_slice = \<lparr>backing = [], lo = 0, hi = 0\<rparr>"

text \<open>\<open>a[k:]\<close> for a slice \<open>a\<close> that covers its whole array.\<close>

definition slice_from :: "byte list \<Rightarrow> nat \<Rightarrow> slice" where
  "slice_from a k = \<lparr>backing = a, lo = k, hi = length a\<rparr>"

text \<open>\<open>s[:0]\<close>: same array, same capacity, length zero.\<close>

definition slice_to0 :: "slice \<Rightarrow> slice" where
  "slice_to0 s = s\<lparr>hi := lo s\<rparr>"

text \<open>
  \<open>append(s, xs...)\<close>. When the elements fit into the capacity they are written into
  the backing array behind the slice, so every slice sharing that array sees them;
  otherwise a new array is allocated and the old one is left as it was. The result is
  the returned slice together with the old backing array as it is after the call. (The
  capacity of a newly allocated array is at least the length needed; the model
  allocates exactly that.)
\<close>

definition append_go :: "slice \<Rightarrow> byte list \<Rightarrow> slice \<times> byte list" where
  "append_go s xs =
     (if len_s s + length xs \<le> cap_s s then
        (let a = take (hi s) (backing s) @ xs @ drop (hi s + length xs) (backing s)
         in (s\<lparr>backing := a, hi := hi s + length xs\<rparr>, a))
      else
        (\<lparr>backing = contents s @ xs, lo = 0, hi = len_s s + length xs\<rparr>, backing s))"

subsection \<open>\<open>hash.Hash\<close>\<close>

text \<open>
  The state of a \<open>hash.Hash\<close> is the sequence of bytes written since the last
  \<open>Reset\<close>; \<open>Sum(b)\<close> appends the digest of that sequence to \<open>b\<close> and returns the
  resulting slice, leaving the state as it is.
\<close>

definition Reset :: "byte list" where
  "Reset = []"

definition Write :: "byte list \<Rightarrow> byte list \<Rightarrow> byte list" where
  "Write st bs = st @ bs"

definition Sum :: "hashfn \<Rightarrow> byte list \<Rightarrow> slice \<Rightarrow> slice \<times> byte list" where
  "Sum H st b = append_go b (H st)"

subsection \<open>Little-endian 64-bit access\<close>

text \<open>
  \<open>*(*uint64)(unsafe.Pointer(&s[off]))\<close> reads and writes the eight bytes from offset
  \<open>off\<close> in the byte order of the machine, little-endian on the platforms of the
  package. \<open>&s[off]\<close> panics when \<open>off\<close> is not an index of \<open>s\<close>, and with fewer than
  eight bytes left the access leaves the slice; both are the error branch here.
\<close>

fun le64 :: "byte list \<Rightarrow> uint64" where
  "le64 [] = 0"
| "le64 (x # xs) = ucast x + push_bit 8 (le64 xs)"

fun bytes_le :: "nat \<Rightarrow> uint64 \<Rightarrow> byte list" where
  "bytes_le 0 w = []"
| "bytes_le (Suc k) w = ucast w # bytes_le k (drop_bit 8 w)"

definition load64 :: "byte list \<Rightarrow> nat \<Rightarrow> error + uint64" where
  "load64 s off =
     (if off + 8 \<le> length s then Inr (le64 (take 8 (drop off s))) else Inl OutOfRange)"

definition store64 :: "byte list \<Rightarrow> nat \<Rightarrow> uint64 \<Rightarrow> error + byte list" where
  "store64 s off w =
     (if off + 8 \<le> length s then Inr (take off s @ bytes_le 8 w @ drop (off + 8) s)
      else Inl OutOfRange)"

text \<open>\<open>*(*uint64)(unsafe.Pointer(&s[off]))++\<close>\<close>

definition incr64 :: "byte list \<Rightarrow> nat \<Rightarrow> error + byte list" where
  "incr64 s off = (case load64 s off of Inl e \<Rightarrow> Inl e | Inr w \<Rightarrow> store64 s off (w + 1))"

section \<open>The generator\<close>

text \<open>The mutex serialises the calls of \<open>Read\<close>; the model is of one call at a time.\<close>

record randReader =
  entropy :: "byte list"
  h :: "byte list"
  buf :: slice

text \<open>
  The counter increment at the head of the loop of \<open>Read\<close>: increment the word at
  offset 0, read it again, and when it is zero increment the word at offset 8.
\<close>

definition incr_counter :: "byte list \<Rightarrow> error + byte list" where
  "incr_counter e =
     (case incr64 e 0 of
        Inl err \<Rightarrow> Inl err
      | Inr e1 \<Rightarrow>
          (case load64 e1 0 of
             Inl err \<Rightarrow> Inl err
           | Inr w \<Rightarrow> if w = 0 then incr64 e1 8 else Inr e1))"

text \<open>
  \<open>copy(b[n:], src)\<close>: the number of bytes copied is the smaller of the two lengths;
  the result is the new content of \<open>b\<close> and that number.
\<close>

definition copy_at :: "byte list \<Rightarrow> nat \<Rightarrow> byte list \<Rightarrow> byte list \<times> nat" where
  "copy_at b n src =
     (let k = min (length b - n) (length src)
      in (take n b @ take k src @ drop (n + k) b, k))"

text \<open>
  One iteration of the loop of \<open>Read\<close>, entered with \<open>n < len(b)\<close>. The fields of the
  reader are not exported and \<open>buf\<close> only ever holds a slice that \<open>Sum\<close> returned for
  it, so the caller's \<open>b\<close>, \<open>entropy\<close> and \<open>buf\<close> are three different arrays.
\<close>

definition Read_step ::
  "hashfn \<Rightarrow> randReader \<Rightarrow> byte list \<Rightarrow> nat \<Rightarrow> error + (randReader \<times> byte list \<times> nat)" where
  "Read_step H r b n =
     (case incr_counter (entropy r) of
        Inl err \<Rightarrow> Inl err
      | Inr e \<Rightarrow>
          (let st = Write Reset e;
               bf = fst (Sum H st (slice_to0 (buf r)));
               (b', k) = copy_at b n (contents bf)
           in Inr (r\<lparr>entropy := e, h := st, buf := bf\<rparr>, b', n + k)))"

partial_function (option) Read_loop ::
  "hashfn \<Rightarrow> randReader \<Rightarrow> byte list \<Rightarrow> nat \<Rightarrow> (error + (nat \<times> randReader \<times> byte list)) option" where
  "Read_loop H r b n =
     (if n < length b then
        (case Read_step H r b n of
           Inl err \<Rightarrow> Some (Inl err)
         | Inr (r', b', n') \<Rightarrow> Read_loop H r' b' n')
      else Some (Inr (n, r, b)))"

text \<open>
  The method \<open>randReader.Read\<close>: the count returned, the reader afterwards and the
  content of \<open>b\<close> afterwards. The error value of the source is always \<open>nil\<close>. A
  result \<open>None\<close> is a call that does not return.
\<close>

definition randReader_Read ::
  "hashfn \<Rightarrow> randReader \<Rightarrow> byte list \<Rightarrow> (error + (nat \<times> randReader \<times> byte list)) option" where
  "randReader_Read H r b = Read_loop H r b 0"

text \<open>
  The initialiser of the global \<open>Reader\<close>. \<open>src\<close> is what the entropy source can
  deliver; \<open>io.CopyN\<close> writes its first 64 bytes into the hash or fails. The slice
  returned by \<open>Sum\<close> is dropped by the source.
\<close>

definition Reader_init :: "hashfn \<Rightarrow> byte list \<Rightarrow> error + randReader" where
  "Reader_init H src =
     (if length src < 64 then Inl NoEntropy
      else
        (let st = Write Reset (take 64 src);
             e = replicate (16 + 32) 0;
             e' = snd (Sum H st (slice_from e 16))
         in Inr \<lparr>entropy = e', h = st, buf = nil_slice\<rparr>))"

section \<open>The sampling functions\<close>

text \<open>
  The package functions work on the global \<open>Reader\<close>; here they take its state and
  return it with their result.
\<close>

text \<open>\<open>func Read(b []byte) { Reader.Read(b) }\<close>: the content of \<open>b\<close> afterwards.\<close>

definition Read :: "hashfn \<Rightarrow> randReader \<Rightarrow> byte list \<Rightarrow> (error + (byte list \<times> randReader)) option" where
  "Read H r b =
     (case randReader_Read H r b of
        None \<Rightarrow> None
      | Some (Inl err) \<Rightarrow> Some (Inl err)
      | Some (Inr (cnt, r', b')) \<Rightarrow> Some (Inr (b', r')))"

text \<open>
  \<open>make([]byte, n)\<close> and \<open>make([]int, n)\<close>. The Go runtime panics (\<open>makeslice: len
  out of range\<close>) when the length is negative, when the size in bytes (the length times
  the element size, 1 for a byte and 8 for an \<open>int\<close>) overflows the machine word, and
  when that size exceeds the allocation limit of the runtime; otherwise the slice has
  \<open>n\<close> zero elements. \<open>maxAlloc\<close> is that limit, \<open>2^48\<close> bytes on the 64-bit
  platforms of the package. Below the limit the memory is taken to be there.
\<close>

definition maxAlloc :: nat where
  "maxAlloc = 2 ^ 48"

definition make_bytes :: "go_int \<Rightarrow> error + byte list" where
  "make_bytes n =
     (if sint n < 0 \<or> maxAlloc < nat (sint n) then Inl MakeSliceLen
      else Inr (replicate (nat (sint n)) 0))"

definition make_ints :: "go_int \<Rightarrow> error + go_int list" where
  "make_ints n =
     (if sint n < 0 \<or> 2 ^ 64 \<le> 8 * nat (sint n) \<or> maxAlloc < 8 * nat (sint n)
      then Inl MakeSliceLen
      else Inr (replicate (nat (sint n)) 0))"

definition Bytes :: "hashfn \<Rightarrow> randReader \<Rightarrow> go_int \<Rightarrow> (error + (byte list \<times> randReader)) option" where
  "Bytes H r n =
     (case make_bytes n of
        Inl err \<Rightarrow> Some (Inl err)
      | Inr b \<Rightarrow> Read H r b)"

text \<open>The conversions \<open>uint64(n)\<close> and \<open>int(x)\<close> keep the 64 bits.\<close>

definition uint64_of :: "go_int \<Rightarrow> uint64" where
  "uint64_of n = word_of_int (sint n)"

definition int_of :: "uint64 \<Rightarrow> go_int" where
  "int_of x = word_of_int (uint x)"

definition MaxUint64 :: uint64 where
  "MaxUint64 = 18446744073709551615"

text \<open>\<open>max := math.MaxUint64 - math.MaxUint64%uint64(n)\<close>\<close>

definition Intn_max :: "go_int \<Rightarrow> uint64" where
  "Intn_max n = MaxUint64 - MaxUint64 mod uint64_of n"

text \<open>
  The rejection loop: \<open>r := load(b); for r >= max { Read(b); r = load(b) }\<close>, with
  the load of \<open>r\<close> from \<open>b\<close> at the head of each round.
\<close>

partial_function (option) Intn_loop ::
  "hashfn \<Rightarrow> randReader \<Rightarrow> byte list \<Rightarrow> uint64 \<Rightarrow> (error + (uint64 \<times> randReader)) option" where
  "Intn_loop H r b mx =
     (case load64 b 0 of
        Inl err \<Rightarrow> Some (Inl err)
      | Inr x \<Rightarrow>
          if mx \<le> x then
            (case Read H r b of
               None \<Rightarrow> None
             | Some (Inl err) \<Rightarrow> Some (Inl err)
             | Some (Inr (b', r')) \<Rightarrow> Intn_loop H r' b' mx)
          else Some (Inr (x, r)))"

definition Intn :: "hashfn \<Rightarrow> randReader \<Rightarrow> go_int \<Rightarrow> (error + (go_int \<times> randReader)) option" where
  "Intn H r n =
     (if sint n \<le> 0 then Some (Inl IntnArg)
      else
        (let mx = Intn_max n in
         case Bytes H r 8 of
           None \<Rightarrow> None
         | Some (Inl err) \<Rightarrow> Some (Inl err)
         | Some (Inr (b, r1)) \<Rightarrow>
             (case Intn_loop H r1 b mx of
                None \<Rightarrow> None
              | Some (Inl err) \<Rightarrow> Some (Inl err)
              | Some (Inr (x, r2)) \<Rightarrow> Some (Inr (int_of (x mod uint64_of n), r2)))))"

text \<open>Indexing a slice of \<open>int\<close> panics outside \<open>[0, len)\<close>.\<close>

definition get_at :: "go_int list \<Rightarrow> go_int \<Rightarrow> error + go_int" where
  "get_at m i =
     (if 0 \<le> sint i \<and> nat (sint i) < length m then Inr (m ! nat (sint i)) else Inl OutOfRange)"

definition set_at :: "go_int list \<Rightarrow> go_int \<Rightarrow> go_int \<Rightarrow> error + go_int list" where
  "set_at m i v =
     (if 0 \<le> sint i \<and> nat (sint i) < length m then Inr (m[nat (sint i) := v])
      else Inl OutOfRange)"

text \<open>
  \<open>Perm\<close>: the loop \<open>for i := 1; i < n; i++\<close> on the slice \<open>m\<close>. It ends
  because \<open>i\<close> grows towards \<open>n\<close>; a round returns nothing when \<open>Intn\<close>
  does not.
\<close>

function Perm_loop ::
  "hashfn \<Rightarrow> randReader \<Rightarrow> go_int list \<Rightarrow> go_int \<Rightarrow> go_int \<Rightarrow> (error + (go_int list \<times> randReader)) option" where
  "Perm_loop H r m i n =
     (if sint i < sint n then
        (case Intn H r (i + 1) of
           None \<Rightarrow> None
         | Some (Inl err) \<Rightarrow> Some (Inl err)
         | Some (Inr (j, r')) \<Rightarrow>
             (case get_at m j of
                Inl err \<Rightarrow> Some (Inl err)
              | Inr v \<Rightarrow>
                  (case set_at m i v of
                     Inl err \<Rightarrow> Some (Inl err)
                   | Inr m1 \<Rightarrow>
                       (case set_at m1 j i of
                          Inl err \<Rightarrow> Some (Inl err)
                        | Inr m2 \<Rightarrow> Perm_loop H r' m2 (i + 1) n))))
      else Some (Inr (m, r)))"
  by pat_completeness auto

termination Perm_loop
proof (relation "measure (\<lambda>(H, r, m, i, n). nat (sint n - sint i))", goal_cases)
  case 1
  show ?case by simp
next
  case (2 H r m i n x2 x2a x y)
  have "sint n < 2 ^ 63" using sint_lt [of n] by simp
  moreover have "- (2 ^ 63) \<le> sint i" using sint_ge [of i] by simp
  ultimately have "- (2 ^ 63) \<le> sint i + 1 \<and> sint i + 1 < 2 ^ 63"
    using \<open>sint i < sint n\<close> by simp
  then have "sint (i + 1) = sint i + 1"
    by (simp add: sint_word_ariths signed_take_bit_int_eq_self)
  with \<open>sint i < sint n\<close> show ?case by simp
qed

declare Perm_loop.simps [simp del]

definition Perm :: "hashfn \<Rightarrow> randReader \<Rightarrow> go_int \<Rightarrow> (error + (go_int list \<times> randReader)) option" where
  "Perm H r n =
     (case make_ints n of
        Inl err \<Rightarrow> Some (Inl err)
      | Inr m \<Rightarrow> Perm_loop H r m 1 n)"

subsection \<open>\<open>BigIntn\<close>\<close>

text \<open>
  Modelled from the spec: the arbitrary-precision sampling primitive that \<open>BigIntn\<close>
  delegates to (\<open>rand.Int\<close> of the Go standard library) is not among the sources.
  The spec fixes that it fails for a bound \<open>n \<le> 0\<close> and that it otherwise does
  its own rejection sampling on bytes drawn from the generator, for a value in
  \<open>[0, n)\<close>; how many bits it draws is left open there. The model draws as many bytes
  as \<open>n - 1\<close> needs, clears the surplus bits of the first byte, reads the bytes as a
  big-endian number and draws again until that number is below \<open>n\<close>.
\<close>

function bitLen :: "int \<Rightarrow> nat" where
  "bitLen n = (if n \<le> 0 then 0 else Suc (bitLen (n div 2)))"
  by pat_completeness auto
termination
  by (relation "measure nat") simp_all

declare bitLen.simps [simp del]

definition be_int :: "byte list \<Rightarrow> int" where
  "be_int bs = foldl (\<lambda>a x. 256 * a + uint x) 0 bs"

definition top_bits :: "int \<Rightarrow> nat" where
  "top_bits mx = (let b = bitLen (mx - 1) mod 8 in if b = 0 then 8 else b)"

definition mask_first :: "nat \<Rightarrow> byte list \<Rightarrow> byte list" where
  "mask_first b bs = (case bs of [] \<Rightarrow> [] | x # xs \<Rightarrow> (x AND mask b) # xs)"

partial_function (option) rand_Int_loop ::
  "hashfn \<Rightarrow> randReader \<Rightarrow> byte list \<Rightarrow> int \<Rightarrow> (error + (int \<times> randReader)) option" where
  "rand_Int_loop H r bytes mx =
     (case randReader_Read H r bytes of
        None \<Rightarrow> None
      | Some (Inl err) \<Rightarrow> Some (Inl err)
      | Some (Inr (cnt, r', bytes')) \<Rightarrow>
          (let bs = mask_first (top_bits mx) bytes';
               n = be_int bs
           in if n < mx then Some (Inr (n, r')) else rand_Int_loop H r' bs mx))"

definition rand_Int :: "hashfn \<Rightarrow> randReader \<Rightarrow> int \<Rightarrow> (error + (int \<times> randReader)) option" where
  "rand_Int H r mx =
     (if mx \<le> 0 then Some (Inl RandIntArg)
      else
        (let bl = bitLen (mx - 1)
         in if bl = 0 then Some (Inr (0, r))
            else rand_Int_loop H r (replicate ((bl + 7) div 8) 0) mx))"

text \<open>\<open>i, _ := rand.Int(Reader, n); return i\<close>\<close>

definition BigIntn :: "hashfn \<Rightarrow> randReader \<Rightarrow> int \<Rightarrow> (error + (int \<times> randReader)) option" where
  "BigIntn H r n = rand_Int H r n"

section \<open>Notions used to state the properties\<close>

text \<open>The number that a byte sequence holds in little-endian order.\<close>

fun le_nat :: "byte list \<Rightarrow> nat" where
  "le_nat [] = 0"
| "le_nat (x # xs) = unat x + 256 * le_nat xs"

text \<open>The entropy buffer after one more increment of the counter.\<close>

definition next_entropy :: "byte list \<Rightarrow> byte list" where
  "next_entropy e = (case incr_counter e of Inl _ \<Rightarrow> e | Inr e' \<Rightarrow> e')"

text \<open>
  The digests of the next \<open>k\<close> states of the entropy buffer, one after the other:
  the byte stream of the generator.
\<close>

fun blocks :: "hashfn \<Rightarrow> byte list \<Rightarrow> nat \<Rightarrow> byte list" where
  "blocks H e 0 = []"
| "blocks H e (Suc k) = H (next_entropy e) @ blocks H (next_entropy e) k"

text \<open>A reader as the initialiser leaves it has room for the two counter words.\<close>

definition wf_reader :: "randReader \<Rightarrow> bool" where
  "wf_reader r \<longleftrightarrow> 16 \<le> length (entropy r)"

text \<open>
  A hash under which the rejection loop of \<open>Intn\<close> comes to an end: from every
  state of the entropy buffer and for every bound \<open>n > 0\<close>, some later draw (the first
  eight bytes of a later digest) is below \<open>max\<close>.
\<close>

definition accepts :: "hashfn \<Rightarrow> bool" where
  "accepts H \<longleftrightarrow>
     (\<forall>e n. 16 \<le> length e \<longrightarrow> 0 < sint n \<longrightarrow>
        (\<exists>k. le64 (take 8 (H ((next_entropy ^^ Suc k) e))) < Intn_max n))"

text \<open>
  Hashes for the concrete instances below, and the reader as it is initialised from 64
  zero bytes of entropy.
\<close>

definition H_len :: hashfn where
  "H_len xs = replicate 32 (of_nat (length xs))"

definition H_zero :: hashfn where
  "H_zero xs = replicate 32 0"

text \<open>
  A hash whose digest starts with the first bytes of its input, for the generator the
  counter, and a hash whose every digest is 32 bytes of value 255.
\<close>

definition H_ctr :: hashfn where
  "H_ctr xs = take 32 (xs @ replicate 32 0)"

definition H_ff :: hashfn where
  "H_ff xs = replicate 32 255"

definition r_zero :: randReader where
  "r_zero = \<lparr>entropy = replicate 48 0, h = replicate 64 0, buf = nil_slice\<rparr>"

section \<open>Bytes and words\<close>

lemma le_nat_append: "le_nat (xs @ ys) = le_nat xs + 256 ^ length xs * le_nat ys"
  by (induction xs) (simp_all add: algebra_simps)

lemma le_nat_bound: "le_nat xs < 256 ^ length xs"
proof (induction xs)
  case Nil
  then show ?case by simp
next
  case (Cons x xs)
  have "unat x < 256" using unsigned_less [of x, where ?'a = nat] by simp
  with Cons show ?case by simp
qed

lemma length_bytes_le: "length (bytes_le k w) = k"
  by (induction k arbitrary: w) simp_all

lemma unat_le64: "unat (le64 xs) = le_nat xs mod 2 ^ 64"
proof (induction xs)
  case Nil
  then show ?case by simp
next
  case (Cons x xs)
  have "unat (ucast x + push_bit 8 (le64 xs) :: uint64) = (unat x + 256 * unat (le64 xs)) mod 2 ^ 64"
    by (simp add: unat_word_ariths push_bit_eq_mult unsigned_ucast_eq take_bit_eq_mod mod_simps mult.commute)
  also have "\<dots> = (unat x + 256 * (le_nat xs mod 2 ^ 64)) mod 2 ^ 64"
    by (simp add: Cons)
  also have "\<dots> = (unat x + 256 * le_nat xs) mod 2 ^ 64"
    by (metis mod_add_right_eq mod_mult_right_eq)
  finally show ?case by simp
qed

lemma le_nat_bytes_le: "le_nat (bytes_le k w) = unat w mod 256 ^ k"
proof (induction k arbitrary: w)
  case 0
  then show ?case by simp
next
  case (Suc k)
  have a: "unat (ucast w :: byte) = unat w mod 256"
    by (simp add: unsigned_ucast_eq take_bit_eq_mod)
  have b: "unat (drop_bit 8 w) = unat w div 256"
    by (simp add: unat_drop_bit_eq drop_bit_eq_div unat_div)
  show ?case
    by (simp add: Suc a b mod_mult2_eq)
qed

lemma le64_bytes_le: "le64 (bytes_le 8 w) = w"
proof -
  have "unat (le64 (bytes_le 8 w)) = unat w"
    using unsigned_less [of w, where ?'a = nat] by (simp add: unat_le64 le_nat_bytes_le)
  then show ?thesis by (rule word_unat_eq_iff [THEN iffD2])
qed

lemma le_nat_take8: "unat (le64 (take 8 e)) = le_nat (take 8 e)"
proof -
  have "le_nat (take 8 e) < 256 ^ length (take 8 e)" by (rule le_nat_bound)
  also have "\<dots> \<le> 256 ^ 8" by (rule power_increasing) simp_all
  finally show ?thesis by (simp add: unat_le64)
qed

lemma incr_counter_eq:
  assumes "16 \<le> length e"
  shows "incr_counter e =
    Inr (bytes_le 8 (le64 (take 8 e) + 1) @
         (if le64 (take 8 e) + 1 = 0 then bytes_le 8 (le64 (take 8 (drop 8 e)) + 1)
          else take 8 (drop 8 e)) @ drop 16 e)"
proof -
  let ?w = "le64 (take 8 e) + 1"
  let ?e1 = "bytes_le 8 ?w @ drop 8 e"
  have a: "incr64 e 0 = Inr ?e1"
    using assms by (simp add: incr64_def load64_def store64_def)
  have b: "load64 ?e1 0 = Inr ?w"
    using assms by (simp add: load64_def length_bytes_le le64_bytes_le)
  have c: "incr64 ?e1 8 = Inr (bytes_le 8 ?w @ bytes_le 8 (le64 (take 8 (drop 8 e)) + 1) @ drop 16 e)"
    using assms by (simp add: incr64_def load64_def store64_def length_bytes_le)
  have d: "drop 8 e = take 8 (drop 8 e) @ drop 16 e"
    by (metis append_take_drop_id drop_drop numeral_Bit0 add.commute) 
  have "incr_counter e = (if ?w = 0 then incr64 ?e1 8 else Inr ?e1)"
    by (simp only: incr_counter_def a b sum.case)
  also have "\<dots> = Inr (bytes_le 8 ?w @
         (if ?w = 0 then bytes_le 8 (le64 (take 8 (drop 8 e)) + 1)
          else take 8 (drop 8 e)) @ drop 16 e)"
    using d by (simp only: c if_distrib [of Inr] if_distrib [of "\<lambda>x. x @ _"] if_distrib [of "\<lambda>x. _ @ x"] flip: d) 
  finally show ?thesis .
qed

lemma le_nat_take16:
  assumes "16 \<le> length e"
  shows "le_nat (take 16 e) = le_nat (take 8 e) + 2 ^ 64 * le_nat (take 8 (drop 8 e))"
proof -
  have "take 16 e = take 8 e @ take 8 (drop 8 e)"
    by (metis take_add numeral_Bit0)
  moreover have "length (take 8 e) = 8" using assms by simp
  ultimately show ?thesis by (simp add: le_nat_append)
qed

lemma counter_arith:
  fixes a c :: nat
  assumes "a < 2 ^ 64" "c < 2 ^ 64"
  shows "(a + 1) mod 2 ^ 64 + 2 ^ 64 * (if (a + 1) mod 2 ^ 64 = 0 then (c + 1) mod 2 ^ 64 else c)
         = (a + 2 ^ 64 * c + 1) mod 2 ^ 128"
proof (cases "a + 1 = 2 ^ 64")
  case True
  have "a + 2 ^ 64 * c + 1 = 2 ^ 64 * (c + 1)"
    using True by (simp only: algebra_simps)
  then have "(a + 2 ^ 64 * c + 1) mod 2 ^ 128 = (2 ^ 64 * (c + 1)) mod (2 ^ 64 * 2 ^ 64)"
    by (simp only: flip: power_add) simp
  also have "\<dots> = 2 ^ 64 * ((c + 1) mod 2 ^ 64)"
    by (simp only: mult_mod_right)
  finally have r: "(a + 2 ^ 64 * c + 1) mod 2 ^ 128 = 2 ^ 64 * ((c + 1) mod 2 ^ 64)" .
  have l: "(a + 1) mod 2 ^ 64 = 0" by (simp only: True mod_self)
  show ?thesis by (simp only: l r refl if_True add_0)
next
  case False
  with assms have lt: "a + 1 < 2 ^ 64" by linarith
  have l: "(a + 1) mod 2 ^ 64 = a + 1" using lt by (rule mod_less)
  have ne: "a + 1 \<noteq> 0" by simp
  have "Suc c \<le> 2 ^ 64" using assms(2) by linarith
  then have "2 ^ 64 * Suc c \<le> (2 ^ 64 * 2 ^ 64 :: nat)"
    by (rule mult_le_mono2)
  then have "2 ^ 64 * c + 2 ^ 64 \<le> (2 ^ 128 :: nat)"
    by (simp only: mult_Suc_right flip: power_add) simp
  with lt have "a + 2 ^ 64 * c + 1 < 2 ^ 128" by linarith
  then have r: "(a + 2 ^ 64 * c + 1) mod 2 ^ 128 = a + 2 ^ 64 * c + 1" by (rule mod_less)
  show ?thesis by (simp only: l r ne if_False)
qed

lemma incr_counter_succ:
  assumes "16 \<le> length e"
  shows "\<exists>e'. incr_counter e = Inr e' \<and> length e' = length e \<and> drop 16 e' = drop 16 e
          \<and> le_nat (take 16 e') = (le_nat (take 16 e) + 1) mod 2 ^ 128"
proof -
  let ?lo = "le64 (take 8 e) + 1"
  let ?hi = "if ?lo = 0 then bytes_le 8 (le64 (take 8 (drop 8 e)) + 1) else take 8 (drop 8 e)"
  let ?e' = "bytes_le 8 ?lo @ ?hi @ drop 16 e"
  have eq: "incr_counter e = Inr ?e'" by (rule incr_counter_eq [OF assms])
  have lh: "length ?hi = 8" using assms by (simp add: length_bytes_le)
  have len: "length ?e' = length e" using assms lh by (simp add: length_bytes_le)
  have dr: "drop 16 ?e' = drop 16 e" using lh by (simp add: length_bytes_le)
  have tk: "take 16 ?e' = bytes_le 8 ?lo @ ?hi" using lh by (simp add: length_bytes_le)
  have a: "le_nat (take 8 e) < 2 ^ 64"
    using le_nat_take8 [of e] unsigned_less [of "le64 (take 8 e)", where ?'a = nat] by simp
  have c: "le_nat (take 8 (drop 8 e)) < 2 ^ 64"
    using le_nat_take8 [of "drop 8 e"] unsigned_less [of "le64 (take 8 (drop 8 e))", where ?'a = nat] by simp
  have ulo: "unat ?lo = (le_nat (take 8 e) + 1) mod 2 ^ 64"
    by (simp add: unat_word_ariths le_nat_take8)
  have lo0: "?lo = 0 \<longleftrightarrow> (le_nat (take 8 e) + 1) mod 2 ^ 64 = 0"
    using ulo by (metis unat_eq_0)
  have vlo: "le_nat (bytes_le 8 ?lo) = (le_nat (take 8 e) + 1) mod 2 ^ 64"
    using ulo by (simp add: le_nat_bytes_le)
  have vhi: "le_nat ?hi = (if (le_nat (take 8 e) + 1) mod 2 ^ 64 = 0
       then (le_nat (take 8 (drop 8 e)) + 1) mod 2 ^ 64 else le_nat (take 8 (drop 8 e)))"
    unfolding lo0 by (simp add: le_nat_bytes_le unat_word_ariths le_nat_take8)
  have "le_nat (take 16 ?e') = le_nat (bytes_le 8 ?lo) + 2 ^ 64 * le_nat ?hi"
    unfolding tk by (simp only: le_nat_append length_bytes_le) simp
  also have "\<dots> = (le_nat (take 8 e) + 2 ^ 64 * le_nat (take 8 (drop 8 e)) + 1) mod 2 ^ 128"
    unfolding vlo vhi by (rule counter_arith [OF a c])
  finally have "le_nat (take 16 ?e') = (le_nat (take 16 e) + 1) mod 2 ^ 128"
    by (simp only: le_nat_take16 [OF assms])
  with eq len dr show ?thesis by blast
qed

section \<open>Arithmetic of \<open>Intn\<close>\<close>

lemma uint64_of_id: "uint64_of n = n"
  by (simp add: uint64_of_def)

lemma int_of_id: "int_of x = x"
  by (simp add: int_of_def)

lemma sint_pos_uint:
  fixes n :: go_int
  assumes "0 \<le> sint n"
  shows "uint n = sint n"
proof -
  have "sint n < 2 ^ 64" using sint_lt [of n] by simp
  with assms have "take_bit 64 (sint n) = sint n" by (simp add: take_bit_int_eq_self)
  then show ?thesis by (simp add: uint_sint)
qed

lemma unat_MaxUint64: "unat MaxUint64 = 2 ^ 64 - 1"
  by (simp add: MaxUint64_def)

lemma unat_Intn_max: "unat (Intn_max n) = (2 ^ 64 - 1) - (2 ^ 64 - 1) mod unat n"
proof -
  have "MaxUint64 mod n \<le> MaxUint64"
    by (simp add: word_le_nat_alt unat_mod)
  then have "unat (MaxUint64 - MaxUint64 mod n) = unat MaxUint64 - unat (MaxUint64 mod n)"
    by (rule unat_sub)
  then show ?thesis
    by (simp add: Intn_max_def uint64_of_id unat_mod unat_MaxUint64)
qed

lemma unat_Intn_max_mult: "unat (Intn_max n) = unat n * ((2 ^ 64 - 1) div unat n)"
  unfolding unat_Intn_max by (simp add: minus_mod_eq_mult_div)

lemma Intn_max_mod: "Intn_max n mod uint64_of n = 0"
proof -
  have "unat (Intn_max n mod n) = 0"
    by (simp add: unat_mod unat_Intn_max_mult)
  then show ?thesis by (simp add: uint64_of_id unat_eq_0)
qed

lemma card_residue_nat:
  fixes n q k :: nat
  assumes "k < n"
  shows "card {x. x < n * q \<and> x mod n = k} = q"
proof -
  have "{x. x < n * q \<and> x mod n = k} = (\<lambda>i. i * n + k) ` {..<q}" (is "?A = ?B")
  proof (rule set_eqI, rule iffI)
    fix x assume "x \<in> ?A"
    then have x: "x < n * q" "x mod n = k" by simp_all
    have "x div n < q" using x(1) assms
      by (simp add: less_mult_imp_div_less mult.commute)
    moreover have "x = (x div n) * n + k" using x(2) by (metis div_mult_mod_eq)
    ultimately show "x \<in> ?B" by blast
  next
    fix x assume "x \<in> ?B"
    then obtain i where i: "i < q" "x = i * n + k" by blast
    have "i * n + k < i * n + n" using assms by simp
    also have "\<dots> = Suc i * n" by simp
    also have "\<dots> \<le> q * n" using i(1) by (intro mult_le_mono1) simp
    finally have "x < n * q" using i(2) by (simp add: mult.commute)
    moreover have "x mod n = k" using i(2) assms by simp
    ultimately show "x \<in> ?A" by simp
  qed
  moreover have "inj_on (\<lambda>i. i * n + k) {..<q}"
    using assms by (auto simp: inj_on_def)
  ultimately show ?thesis by (simp add: card_image)
qed

lemma card_residue_word:
  fixes mx n k :: uint64
  assumes "k < n" "unat mx = unat n * q"
  shows "card {x. x < mx \<and> x mod n = k} = q"
proof -
  let ?A = "{x :: uint64. x < mx \<and> x mod n = k}"
  let ?B = "{y. y < unat n * q \<and> y mod unat n = unat k}"
  have "unat ` ?A = ?B"
  proof (rule set_eqI, rule iffI)
    fix y assume "y \<in> unat ` ?A"
    then obtain x where x: "x < mx" "x mod n = k" "y = unat x" by blast
    have "unat x < unat mx" using x(1) by (simp only: word_less_nat_alt)
    moreover have "unat x mod unat n = unat k" using x(2) by (simp only: unat_mod [symmetric])
    ultimately show "y \<in> ?B" using x(3) assms(2) by simp
  next
    fix y assume "y \<in> ?B"
    then have y: "y < unat mx" "y mod unat n = unat k" using assms(2) by simp_all
    have "unat mx < 2 ^ 64" using unsigned_less [of mx, where ?'a = nat] by simp
    then have "y < 2 ^ 64" using y(1) by simp
    then have u: "unat (of_nat y :: uint64) = y" by (simp add: unat_of_nat)
    have a: "(of_nat y :: uint64) < mx" using y(1) u by (simp only: word_less_nat_alt)
    have "unat ((of_nat y :: uint64) mod n) = unat k"
      using y(2) u by (simp only: unat_mod)
    then have b: "(of_nat y :: uint64) mod n = k" by (rule unsigned_word_eqI)
    from a b have "of_nat y \<in> ?A" by simp
    then have "unat (of_nat y :: uint64) \<in> unat ` ?A" by (rule imageI)
    then show "y \<in> unat ` ?A" by (simp only: u)
  qed
  moreover have "inj_on unat ?A" by (rule inj_onI) (rule unsigned_word_eqI)
  then have "card (unat ` ?A) = card ?A" by (rule card_image)
  ultimately have "card ?A = card ?B" by simp
  moreover have "unat k < unat n" using assms(1) by (simp only: word_less_nat_alt)
  ultimately show ?thesis by (simp only: card_residue_nat)
qed

lemma uint_Intn_max:
  assumes "0 < sint n"
  shows "uint (Intn_max n) = (2 ^ 64 - 1) - (2 ^ 64 - 1) mod sint n"
proof -
  have un: "uint n = sint n" using assms by (simp add: sint_pos_uint)
  have "uint (Intn_max n) = int (unat (Intn_max n))" by simp
  also have "\<dots> = int ((2 ^ 64 - 1) - (2 ^ 64 - 1) mod unat n)"
    by (simp only: unat_Intn_max)
  also have "\<dots> = (2 ^ 64 - 1) - (2 ^ 64 - 1) mod uint n"
    by (simp add: of_nat_diff of_nat_mod)
  finally show ?thesis by (simp only: un)
qed

lemma largest_multiple_int:
  fixes N M m :: int
  assumes "0 < N" "N dvd m" "m \<le> M"
  shows "m \<le> M - M mod N"
proof -
  from assms(2) obtain q where q: "m = N * q" by (rule dvdE)
  have "q = m div N" using q assms(1) by simp
  also have "\<dots> \<le> M div N" using assms(1,3) by (simp add: zdiv_mono1)
  finally have "N * q \<le> N * (M div N)" using assms(1) by simp
  then show ?thesis using q by (simp add: minus_mod_eq_mult_div)
qed

lemma pred_mod_int:
  fixes N W :: int
  assumes "0 < N"
  shows "(W - 1) mod N = (if N dvd W then N - 1 else W mod N - 1)"
proof (cases "N dvd W")
  case True
  then have "W mod N = 0" by simp
  then have "(W - 1) mod N = (0 - 1) mod N" by (metis mod_diff_left_eq)
  also have "\<dots> = N - 1" using assms
    by (simp add: zmod_minus1)
  finally show ?thesis using True by simp
next
  case False
  then have "W mod N \<noteq> 0" by (simp add: dvd_eq_mod_eq_0)
  moreover have "0 \<le> W mod N" "W mod N < N" using assms by simp_all
  ultimately have r: "0 \<le> W mod N - 1" "W mod N - 1 < N" by simp_all
  have "(W - 1) mod N = (W mod N - 1) mod N" by (simp add: mod_diff_left_eq)
  also have "\<dots> = W mod N - 1" using r by (simp add: mod_pos_pos_trivial)
  finally show ?thesis using False by simp
qed


text \<open>
  Claim C3, as the code has it. For every \<open>n > 0\<close> the value \<open>max\<close> of \<open>Intn\<close>
  is \<open>MaxUint64 - MaxUint64 mod n\<close>, a multiple of \<open>n\<close> and the largest one not
  exceeding \<open>MaxUint64 = W - 1\<close>, where \<open>W = 2^64\<close>. It is \<open>W - W mod n\<close>
  exactly when \<open>n\<close> does not divide \<open>W\<close>; when \<open>n\<close> divides \<open>W\<close> (a power of
  two) it is \<open>W - n\<close>.
\<close>

theorem Intn_max_value:
  assumes "0 < sint n"
  shows "uint (Intn_max n) = (2 ^ 64 - 1) - (2 ^ 64 - 1) mod sint n
       \<and> sint n dvd uint (Intn_max n)
       \<and> (\<forall>m. sint n dvd m \<and> m \<le> 2 ^ 64 - 1 \<longrightarrow> m \<le> uint (Intn_max n))
       \<and> (\<not> sint n dvd 2 ^ 64 \<longrightarrow> uint (Intn_max n) = 2 ^ 64 - 2 ^ 64 mod sint n)
       \<and> (sint n dvd 2 ^ 64 \<longrightarrow> uint (Intn_max n) = 2 ^ 64 - sint n)"
proof -
  let ?N = "sint n"
  have v: "uint (Intn_max n) = (2 ^ 64 - 1) - (2 ^ 64 - 1) mod ?N"
    by (rule uint_Intn_max [OF assms])
  have d: "?N dvd uint (Intn_max n)"
    unfolding v by (rule dvd_minus_mod)
  have l: "\<forall>m. ?N dvd m \<and> m \<le> 2 ^ 64 - 1 \<longrightarrow> m \<le> uint (Intn_max n)"
    unfolding v using largest_multiple_int [OF assms] by blast
  have p: "(2 ^ 64 - 1) mod ?N = (if ?N dvd 2 ^ 64 then ?N - 1 else 2 ^ 64 mod ?N - 1)"
    by (rule pred_mod_int [OF assms])
  have a: "\<not> ?N dvd 2 ^ 64 \<longrightarrow> uint (Intn_max n) = 2 ^ 64 - 2 ^ 64 mod ?N"
    unfolding v p by simp
  have b: "?N dvd 2 ^ 64 \<longrightarrow> uint (Intn_max n) = 2 ^ 64 - ?N"
    unfolding v p by simp
  from v d l a b show ?thesis by blast
qed

theorem Intn_max_value_witness:
  "0 < sint (6 :: go_int) \<and> uint (Intn_max 6) = 18446744073709551612 \<and> \<not> sint (6 :: go_int) dvd 2 ^ 64"
  using Intn_max_value [of 6] by simp

text \<open>
  For \<open>n = 4\<close> the value is \<open>W - 4\<close>, not \<open>W - W mod 4 = W\<close>: the claim as first
  stated does not hold for the powers of two.
\<close>

theorem Intn_max_not_W: "uint (Intn_max 4) \<noteq> 2 ^ 64 - 2 ^ 64 mod sint (4 :: go_int)"
  by (simp add: Intn_max_def MaxUint64_def uint64_of_def)

text \<open>
  Claim C4. For every \<open>n > 0\<close> the value \<open>max\<close> is an exact multiple of \<open>n\<close>
  (\<open>max mod n = 0\<close>), and the draws \<open>r < max\<close> fall on every residue \<open>k\<close> of
  \<open>[0, n)\<close> equally often: \<open>max / n\<close> of them have \<open>r mod n = k\<close>.
\<close>

theorem Intn_max_multiple:
  assumes "0 < sint n"
  shows "Intn_max n mod uint64_of n = 0
       \<and> (\<forall>k. k < uint64_of n \<longrightarrow>
             card {x. x < Intn_max n \<and> x mod uint64_of n = k} = unat (Intn_max n) div unat (uint64_of n))"
proof -
  have "n \<noteq> 0" using assms by auto
  then have "0 < unat n" by (simp add: unat_gt_0)
  then have q: "unat (Intn_max n) div unat n = (2 ^ 64 - 1) div unat n"
    by (simp only: unat_Intn_max_mult nonzero_mult_div_cancel_left)
  have "\<And>k. k < n \<Longrightarrow> card {x. x < Intn_max n \<and> x mod n = k} = (2 ^ 64 - 1) div unat n"
    by (rule card_residue_word) (simp_all only: unat_Intn_max_mult)
  moreover have "Intn_max n mod n = 0"
    using Intn_max_mod [of n] by (simp only: uint64_of_id)
  ultimately show ?thesis
    by (simp add: uint64_of_id q)
qed

theorem Intn_max_multiple_witness:
  "0 < sint (3 :: go_int) \<and> Intn_max 3 mod uint64_of 3 = 0
   \<and> card {x. x < Intn_max 3 \<and> x mod uint64_of 3 = 1} = 6148914691236517205"
  using Intn_max_multiple [of 3] by (simp add: uint64_of_def Intn_max_def MaxUint64_def)

lemma int_of_mod_residue:
  assumes "0 < sint n"
  shows "sint (int_of (x mod uint64_of n)) = uint x mod sint n
       \<and> 0 \<le> sint (int_of (x mod uint64_of n))
       \<and> sint (int_of (x mod uint64_of n)) < sint n"
proof -
  have un: "uint n = sint n" using assms by (simp add: sint_pos_uint)
  have m: "uint (x mod n) = uint x mod sint n" by (simp add: uint_mod un)
  have lt: "uint (x mod n) < sint n" unfolding m using assms by simp
  have "sint n < 2 ^ 63" using sint_lt [of n] by simp
  with lt have "uint (x mod n) < 2 ^ 63" by simp
  moreover have "- (2 ^ 63) \<le> uint (x mod n)"
    by (rule order_trans [of _ 0]) simp_all
  ultimately have "signed_take_bit 63 (uint (x mod n)) = uint (x mod n)"
    by (intro signed_take_bit_int_eq_self)
  then have s: "sint (x mod n) = uint (x mod n)" by (simp add: sint_uint)
  have "0 \<le> uint x mod sint n" using assms by simp
  then show ?thesis using s m lt by (simp add: int_of_id uint64_of_id)
qed


text \<open>
  Claim C10. For every \<open>n > 0\<close> and every 64-bit value \<open>r\<close>, the conversion
  \<open>int(r % uint64(n))\<close> does not overflow: the \<open>int\<close> it yields is the residue of
  \<open>r\<close> modulo \<open>n\<close>, it is not negative and it is below \<open>n\<close>.
\<close>

theorem Intn_conversion_exact:
  assumes "0 < sint n"
  shows "sint (int_of (x mod uint64_of n)) = uint x mod sint n
       \<and> 0 \<le> sint (int_of (x mod uint64_of n))
       \<and> sint (int_of (x mod uint64_of n)) < sint n"
  using assms by (rule int_of_mod_residue)

theorem Intn_conversion_exact_witness:
  "0 < sint (10 :: go_int) \<and> sint (int_of (18446744073709551615 mod uint64_of 10)) = 5"
  using Intn_conversion_exact [of 10 18446744073709551615] by simp

section \<open>The initialiser\<close>

lemma Reader_init_entropy:
  assumes "64 \<le> length src" "H (take 64 src) \<noteq> []"
  shows "Reader_init H src =
    Inr \<lparr>entropy = replicate 48 0, h = take 64 src, buf = nil_slice\<rparr>"
  using assms
  by (simp add: Reader_init_def Sum_def append_go_def slice_from_def Write_def Reset_def
      len_s_def cap_s_def)

lemma Reader_init_r_zero:
  assumes "H (replicate 64 0) \<noteq> []"
  shows "Reader_init H (replicate 64 0) = Inr r_zero"
  using Reader_init_entropy [of "replicate 64 0" H] assms by (simp add: r_zero_def)

lemma Reader_init_wf:
  assumes "Reader_init H src = Inr r"
  shows "length (entropy r) = 48" and "wf_reader r"
proof -
  have "length (entropy r) = 48"
    using assms
    by (auto simp: Reader_init_def Sum_def append_go_def slice_from_def len_s_def cap_s_def
        Let_def split: if_splits)
  then show "length (entropy r) = 48" and "wf_reader r"
    by (simp_all add: wf_reader_def)
qed

text \<open>
  Claim C1 asks for the digest of the 64 entropy bytes in \<open>entropy[16:48]\<close>. The slice
  \<open>entropy[16:]\<close> handed to \<open>Sum\<close> is full (length and capacity 32), so the append
  allocates a new array; the initialiser drops the slice returned and the seed bytes
  stay zero. Here with a hash whose digest of 64 bytes is 32 bytes of value 64.
\<close>

theorem Reader_init_seed_zero:
  "map_sum id entropy (Reader_init H_len (replicate 64 7)) = Inr (replicate 48 0)
   \<and> H_len (take 64 (replicate 64 7)) = replicate 32 64"
  by (simp add: Reader_init_def Sum_def append_go_def slice_from_def Write_def Reset_def
      len_s_def cap_s_def H_len_def)

section \<open>The generator's \<open>Read\<close>\<close>

lemma contents_Sum: "contents (fst (Sum H st (slice_to0 s))) = H st"
proof (cases "lo s \<le> length (backing s)")
  case True
  then show ?thesis
    by (simp add: Sum_def append_go_def slice_to0_def contents_def len_s_def cap_s_def Let_def)
next
  case False
  then show ?thesis
    by (cases "H st = []")
       (simp_all add: Sum_def append_go_def slice_to0_def contents_def len_s_def cap_s_def Let_def)
qed

lemma next_entropy_props:
  assumes "16 \<le> length e"
  shows "incr_counter e = Inr (next_entropy e)"
    and "length (next_entropy e) = length e"
    and "drop 16 (next_entropy e) = drop 16 e"
    and "le_nat (take 16 (next_entropy e)) = (le_nat (take 16 e) + 1) mod 2 ^ 128"
proof -
  from incr_counter_succ [OF assms] obtain e' where
    e': "incr_counter e = Inr e'" "length e' = length e" "drop 16 e' = drop 16 e"
        "le_nat (take 16 e') = (le_nat (take 16 e) + 1) mod 2 ^ 128" by blast
  then have "next_entropy e = e'" by (simp add: next_entropy_def)
  with e' show "incr_counter e = Inr (next_entropy e)"
    and "length (next_entropy e) = length e"
    and "drop 16 (next_entropy e) = drop 16 e"
    and "le_nat (take 16 (next_entropy e)) = (le_nat (take 16 e) + 1) mod 2 ^ 128"
    by simp_all
qed

lemma Read_step_eq:
  assumes "wf_reader r"
  shows "Read_step H r b n =
    Inr (r\<lparr>entropy := next_entropy (entropy r), h := next_entropy (entropy r),
            buf := fst (Sum H (next_entropy (entropy r)) (slice_to0 (buf r)))\<rparr>,
         take n b @ take (min (length b - n) (length (H (next_entropy (entropy r)))))
                      (H (next_entropy (entropy r)))
           @ drop (n + min (length b - n) (length (H (next_entropy (entropy r))))) b,
         n + min (length b - n) (length (H (next_entropy (entropy r)))))"
proof -
  have "incr_counter (entropy r) = Inr (next_entropy (entropy r))"
    using assms by (simp add: wf_reader_def next_entropy_props(1))
  then show ?thesis
    by (simp add: Read_step_def Write_def Reset_def copy_at_def contents_Sum Let_def)
qed

lemma blocks_div:
  assumes "32 \<le> (d::nat)"
  shows "(d + 31) div 32 = Suc ((d - 32 + 31) div 32)"
proof -
  from assms obtain c where c: "d = c + 32" by (metis le_add_diff_inverse2)
  have "(c + 31 + 32) div 32 = (c + 31) div 32 + 1" by (rule div_add_self2) simp
  moreover have "c + 32 + 31 = c + 31 + 32" by simp
  ultimately show ?thesis by (simp only: c add_diff_cancel_right' Suc_eq_plus1)
qed
lemma blocks_div_last: 
  assumes "\<not> 32 \<le> (d::nat)" "0 < d" shows "(d + 31) div 32 = Suc 0"
proof (rule div_nat_eqI)
  show "32 * Suc 0 \<le> d + 31" using assms by simp
  show "d + 31 < 32 * Suc (Suc 0)" using assms by simp
qed

lemma Read_loop_total:
  assumes H: "\<forall>x. length (H x) = 32"
  shows "wf_reader r \<Longrightarrow> n \<le> length b \<Longrightarrow>
    \<exists>r'. Read_loop H r b n =
        Some (Inr (length b, r',
                   take n b @ take (length b - n) (blocks H (entropy r) ((length b - n + 31) div 32))))
      \<and> entropy r' = (next_entropy ^^ ((length b - n + 31) div 32)) (entropy r)"
proof (induction "length b - n" arbitrary: r b n rule: less_induct)
  case less
  show ?case
  proof (cases "n < length b")
    case False
    with less.prems have "n = length b" by simp
    then show ?thesis by (subst Read_loop.simps) simp
  next
    case True
    define e where "e = next_entropy (entropy r)"
    define k where "k = min (length b - n) 32"
    define r1 where "r1 = r\<lparr>entropy := e, h := e, buf := fst (Sum H e (slice_to0 (buf r)))\<rparr>"
    define b1 where "b1 = take n b @ take k (H e) @ drop (n + k) b"
    define d where "d = length b - n"
    have lH: "length (H e) = 32" using H by simp
    have kd: "k = min d 32" by (simp add: k_def d_def)
    have dpos: "0 < d" "n + d = length b" using True by (simp_all add: d_def)
    have step: "Read_step H r b n = Inr (r1, b1, n + k)"
      using Read_step_eq [OF less.prems(1), of H b n]
      by (simp add: e_def [symmetric] lH k_def [symmetric] r1_def b1_def)
    have lb: "length b1 = length b"
      using dpos by (simp add: b1_def lH kd)
    have wf: "wf_reader r1"
      using less.prems(1) by (simp add: wf_reader_def r1_def e_def next_entropy_props(2))
    have le: "n + k \<le> length b1" using dpos by (simp add: lb kd)
    have d1: "length b1 - (n + k) = d - k" using dpos by (simp add: lb)
    have dec: "length b1 - (n + k) < length b - n"
      unfolding d1 d_def [symmetric] using dpos by (simp add: kd)
    from less.hyps [OF dec wf le] obtain r' where
      r': "Read_loop H r1 b1 (n + k) =
        Some (Inr (length b1, r',
                   take (n + k) b1 @ take (length b1 - (n + k))
                     (blocks H (entropy r1) ((length b1 - (n + k) + 31) div 32))))"
      and e': "entropy r' = (next_entropy ^^ ((length b1 - (n + k) + 31) div 32)) (entropy r1)"
      by blast
    have er1: "entropy r1 = e" by (simp add: r1_def)
    have unf: "Read_loop H r b n = Read_loop H r1 b1 (n + k)"
      using True by (subst Read_loop.simps) (simp add: step)
    have tk: "take (n + k) b1 = take n b @ take k (H e)"
      using dpos by (simp add: b1_def lH kd)
    have key: "take k (H e) @ take (d - k) (blocks H e ((d - k + 31) div 32))
                 = take d (blocks H (entropy r) ((d + 31) div 32))
             \<and> (next_entropy ^^ ((d - k + 31) div 32)) e
                 = (next_entropy ^^ ((d + 31) div 32)) (entropy r)"
    proof (cases "32 \<le> d")
      case True
      then have k: "k = 32" by (simp add: kd)
      have dd: "(d + 31) div 32 = Suc ((d - 32 + 31) div 32)"
        using True by (rule blocks_div)
      have "take d (blocks H (entropy r) (Suc ((d - 32 + 31) div 32)))
          = H e @ take (d - 32) (blocks H e ((d - 32 + 31) div 32))"
        using True by (simp add: e_def [symmetric] lH)
      moreover have "take 32 (H e) = H e" using lH by simp
      moreover have "(next_entropy ^^ Suc ((d - 32 + 31) div 32)) (entropy r)
                   = (next_entropy ^^ ((d - 32 + 31) div 32)) e"
        by (simp only: funpow_Suc_right o_apply e_def)
      ultimately show ?thesis by (simp only: k dd)
    next
      case False
      then have k: "k = d" by (simp add: kd)
      have dd: "(d + 31) div 32 = Suc 0" using False dpos(1) by (rule blocks_div_last)
      have "take d (blocks H (entropy r) (Suc 0)) = take d (H e)"
        by (simp add: e_def [symmetric])
      moreover have "(next_entropy ^^ Suc 0) (entropy r) = e"
        by (simp add: e_def)
      ultimately show ?thesis by (simp add: k dd)
    qed
    have "take (n + k) b1 @ take (length b1 - (n + k))
                     (blocks H (entropy r1) ((length b1 - (n + k) + 31) div 32))
         = take n b @ take d (blocks H (entropy r) ((d + 31) div 32))"
      using key by (simp only: tk d1 er1 append_assoc)
    moreover have "(next_entropy ^^ ((length b1 - (n + k) + 31) div 32)) (entropy r1)
         = (next_entropy ^^ ((d + 31) div 32)) (entropy r)"
      using key by (simp only: d1 er1)
    ultimately show ?thesis
      using r' e' by (simp only: unf lb d_def) blast
  qed
qed

lemma next_entropy_words:
  assumes "16 \<le> length e"
  shows "le64 (take 8 (next_entropy e)) = le64 (take 8 e) + 1"
    and "le64 (take 8 (drop 8 (next_entropy e))) =
           (if le64 (take 8 e) + 1 = 0 then le64 (take 8 (drop 8 e)) + 1
            else le64 (take 8 (drop 8 e)))"
proof -
  let ?lo = "le64 (take 8 e) + 1"
  let ?hi = "if ?lo = 0 then bytes_le 8 (le64 (take 8 (drop 8 e)) + 1) else take 8 (drop 8 e)"
  have "incr_counter e = Inr (bytes_le 8 ?lo @ ?hi @ drop 16 e)"
    by (rule incr_counter_eq [OF assms])
  then have ne: "next_entropy e = bytes_le 8 ?lo @ ?hi @ drop 16 e"
    by (simp add: next_entropy_def)
  have lh: "length ?hi = 8" using assms by (simp add: length_bytes_le)
  show "le64 (take 8 (next_entropy e)) = ?lo"
    unfolding ne by (simp add: length_bytes_le le64_bytes_le)
  have "take 8 (drop 8 (next_entropy e)) = ?hi"
    unfolding ne using lh by (simp add: length_bytes_le)
  then show "le64 (take 8 (drop 8 (next_entropy e))) =
           (if ?lo = 0 then le64 (take 8 (drop 8 e)) + 1 else le64 (take 8 (drop 8 e)))"
    by (simp add: le64_bytes_le)
qed

lemma funpow_next_entropy:
  assumes "16 \<le> length e"
  shows "length ((next_entropy ^^ k) e) = length e
       \<and> drop 16 ((next_entropy ^^ k) e) = drop 16 e
       \<and> le_nat (take 16 ((next_entropy ^^ k) e)) = (le_nat (take 16 e) + k) mod 2 ^ 128"
proof (induction k)
  case 0
  have "le_nat (take 16 e) < 256 ^ length (take 16 e)" by (rule le_nat_bound)
  also have "\<dots> \<le> 256 ^ 16" by (rule power_increasing) simp_all
  finally have "le_nat (take 16 e) < 2 ^ 128" by simp
  then show ?case by simp
next
  case (Suc k)
  let ?e = "(next_entropy ^^ k) e"
  have l: "16 \<le> length ?e" using Suc assms by simp
  have "le_nat (take 16 (next_entropy ?e)) = (le_nat (take 16 ?e) + 1) mod 2 ^ 128"
    by (rule next_entropy_props(4) [OF l])
  also have "\<dots> = ((le_nat (take 16 e) + k) mod 2 ^ 128 + 1) mod 2 ^ 128"
    using Suc by simp
  also have "\<dots> = (le_nat (take 16 e) + Suc k) mod 2 ^ 128"
    by (simp only: mod_add_left_eq add_Suc_right Suc_eq_plus1 add.assoc)
  finally show ?case
    using Suc next_entropy_props(2,3) [OF l] by simp
qed

lemma length_blocks:
  assumes "\<forall>x. length (H x) = 32"
  shows "length (blocks H e k) = 32 * k"
  using assms by (induction k arbitrary: e) simp_all

lemma blocks_cover: "(L::nat) \<le> 32 * ((L + 31) div 32)"
proof -
  have "L + 31 = 32 * ((L + 31) div 32) + (L + 31) mod 32" by simp
  moreover have "(L + 31) mod 32 < 32" by (rule mod_less_divisor) simp
  ultimately show ?thesis by linarith
qed

lemma blocks_nth:
  assumes H: "\<forall>x. length (H x) = 32"
  shows "i < 32 * k \<Longrightarrow>
    blocks H e k ! i = H ((next_entropy ^^ Suc (i div 32)) e) ! (i mod 32)"
proof (induction k arbitrary: e i)
  case 0
  then show ?case by simp
next
  case (Suc k)
  let ?e = "next_entropy e"
  have lH: "length (H ?e) = 32" using H by simp
  show ?case
  proof (cases "i < 32")
    case True
    then have "i div 32 = 0" "i mod 32 = i" by simp_all
    then show ?thesis using True lH by (simp add: nth_append)
  next
    case False
    then obtain j where j: "i = j + 32" by (metis le_add_diff_inverse2 not_less)
    have jk: "j < 32 * k" using Suc.prems j by simp
    have dv: "(j + 32) div 32 = Suc (j div 32)" by (simp only: div_add_self2)
    have md: "(j + 32) mod 32 = j mod 32" by simp
    have "blocks H e (Suc k) ! i = blocks H ?e k ! j"
      using lH by (simp add: nth_append j)
    also have "\<dots> = H ((next_entropy ^^ Suc (j div 32)) ?e) ! (j mod 32)"
      by (rule Suc.IH [OF jk])
    also have "(next_entropy ^^ Suc (j div 32)) ?e = (next_entropy ^^ Suc (Suc (j div 32))) e"
      by (simp only: funpow_Suc_right o_apply)
    finally show ?thesis by (simp only: j dv md)
  qed
qed

lemma randReader_Read_total:
  assumes "\<forall>x. length (H x) = 32" "wf_reader r"
  shows "\<exists>r'. randReader_Read H r b =
        Some (Inr (length b, r', take (length b) (blocks H (entropy r) ((length b + 31) div 32))))
      \<and> entropy r' = (next_entropy ^^ ((length b + 31) div 32)) (entropy r)"
  using Read_loop_total [OF assms, of 0 b] by (simp add: randReader_Read_def)

lemma wf_reader_funpow:
  assumes "wf_reader r" "entropy r' = (next_entropy ^^ k) (entropy r)"
  shows "wf_reader r'"
  using assms funpow_next_entropy [of "entropy r" k] by (simp add: wf_reader_def)

lemma take_blocks_nth:
  assumes H: "\<forall>x. length (H x) = 32" and i: "i < L"
  shows "take L (blocks H e ((L + 31) div 32)) ! i
           = H ((next_entropy ^^ Suc (i div 32)) e) ! (i mod 32)"
proof -
  have "i < 32 * ((L + 31) div 32)" using i blocks_cover [of L] by linarith
  then have "blocks H e ((L + 31) div 32) ! i = H ((next_entropy ^^ Suc (i div 32)) e) ! (i mod 32)"
    by (rule blocks_nth [OF H])
  then show ?thesis using i by simp
qed

lemma length_take_blocks:
  assumes H: "\<forall>x. length (H x) = 32"
  shows "length (take L (blocks H e ((L + 31) div 32))) = L"
  using blocks_cover [of L] by (simp add: length_blocks [OF H])

lemma le_nat_replicate0: "le_nat (replicate k 0) = 0"
  by (induction k) simp_all


text \<open>
  Claim C5. For a byte slice \<open>b\<close> of any length \<open>L\<close>, \<open>randReader.Read(b)\<close>
  returns, with the count \<open>L\<close> and no error, and it has written every position of
  \<open>b\<close>: position \<open>i\<close> holds byte \<open>i mod 32\<close> of the digest of the entropy buffer
  after \<open>i div 32 + 1\<close> increments of its counter. (The digests are 32 bytes long, as
  those of blake2b-256, and the reader has its 16 counter bytes.)
\<close>

theorem Read_fills_buffer:
  assumes "\<forall>x. length (H x) = 32" and "wf_reader r"
  shows "\<exists>r' b'. randReader_Read H r b = Some (Inr (length b, r', b'))
        \<and> length b' = length b
        \<and> (\<forall>i < length b.
              b' ! i = H ((next_entropy ^^ Suc (i div 32)) (entropy r)) ! (i mod 32))"
proof -
  let ?b = "take (length b) (blocks H (entropy r) ((length b + 31) div 32))"
  from randReader_Read_total [OF assms, of b] obtain r' where
    "randReader_Read H r b = Some (Inr (length b, r', ?b))" by blast
  moreover have "length ?b = length b" by (rule length_take_blocks [OF assms(1)])
  moreover have "\<forall>i < length b.
      ?b ! i = H ((next_entropy ^^ Suc (i div 32)) (entropy r)) ! (i mod 32)"
    using take_blocks_nth [OF assms(1)] by blast
  ultimately show ?thesis by blast
qed


theorem Read_fills_buffer_witness:
  "(\<forall>x. length (H_len x) = 32) \<and> wf_reader r_zero
   \<and> (\<exists>r'. randReader_Read H_len r_zero (replicate 40 5) = Some (Inr (40, r', replicate 40 48)))"
proof -
  have h: "\<forall>x. length (H_len x) = 32" by (simp add: H_len_def)
  have w: "wf_reader r_zero" by (simp add: wf_reader_def r_zero_def)
  from Read_fills_buffer [OF h w, of "replicate 40 5"] obtain r' b' where
    rd: "randReader_Read H_len r_zero (replicate 40 5) = Some (Inr (40, r', b'))"
    and l: "length b' = 40"
    and c: "\<forall>i < 40. b' ! i = H_len ((next_entropy ^^ Suc (i div 32)) (entropy r_zero)) ! (i mod 32)"
    by auto
  have "length ((next_entropy ^^ k) (entropy r_zero)) = 48" for k
    using funpow_next_entropy [of "entropy r_zero" k] by (simp add: r_zero_def)
  then have hl: "H_len ((next_entropy ^^ k) (entropy r_zero)) = replicate 32 48" for k
    by (simp add: H_len_def)
  have "b' ! i = 48" if "i < 40" for i
  proof -
    have "b' ! i = H_len ((next_entropy ^^ Suc (i div 32)) (entropy r_zero)) ! (i mod 32)"
      using c that by blast
    also have "\<dots> = replicate 32 48 ! (i mod 32)" by (simp only: hl)
    also have "\<dots> = 48" by (rule nth_replicate) simp
    finally show ?thesis .
  qed
  then have "b' = replicate 40 48" using l by (simp add: list_eq_iff_nth_eq)
  with rd h w show ?thesis by blast
qed

text \<open>
  Claim C6. One round of the loop of \<open>Read\<close> changes the entropy buffer in its first
  16 bytes only: the low 64-bit word is incremented, the high word is incremented when
  the low word has become zero, so the 128-bit little-endian counter is replaced by its
  successor modulo \<open>2^128\<close>. A call of \<open>Read\<close> leaves the length of the buffer and
  the seed bytes from offset 16 as they were, and advances the counter by the number of
  rounds.
\<close>

theorem Read_counter_frame:
  assumes "\<forall>x. length (H x) = 32" and "wf_reader r"
  shows "(\<exists>r1 b1 n1. Read_step H r b n = Inr (r1, b1, n1)
           \<and> length (entropy r1) = length (entropy r)
           \<and> drop 16 (entropy r1) = drop 16 (entropy r)
           \<and> le64 (take 8 (entropy r1)) = le64 (take 8 (entropy r)) + 1
           \<and> le64 (take 8 (drop 8 (entropy r1))) =
               (if le64 (take 8 (entropy r)) + 1 = 0 then le64 (take 8 (drop 8 (entropy r))) + 1
                else le64 (take 8 (drop 8 (entropy r))))
           \<and> le_nat (take 16 (entropy r1)) = (le_nat (take 16 (entropy r)) + 1) mod 2 ^ 128)
       \<and> (\<exists>r' b'. randReader_Read H r b = Some (Inr (length b, r', b'))
           \<and> length (entropy r') = length (entropy r)
           \<and> drop 16 (entropy r') = drop 16 (entropy r)
           \<and> le_nat (take 16 (entropy r')) =
               (le_nat (take 16 (entropy r)) + (length b + 31) div 32) mod 2 ^ 128)"
proof -
  have l: "16 \<le> length (entropy r)" using assms(2) by (simp add: wf_reader_def)
  let ?e = "next_entropy (entropy r)"
  obtain r1 b1 n1 where s: "Read_step H r b n = Inr (r1, b1, n1)" and e1: "entropy r1 = ?e"
    using Read_step_eq [OF assms(2), of H b n] by simp
  have step: "\<exists>r1 b1 n1. Read_step H r b n = Inr (r1, b1, n1)
           \<and> length (entropy r1) = length (entropy r)
           \<and> drop 16 (entropy r1) = drop 16 (entropy r)
           \<and> le64 (take 8 (entropy r1)) = le64 (take 8 (entropy r)) + 1
           \<and> le64 (take 8 (drop 8 (entropy r1))) =
               (if le64 (take 8 (entropy r)) + 1 = 0 then le64 (take 8 (drop 8 (entropy r))) + 1
                else le64 (take 8 (drop 8 (entropy r))))
           \<and> le_nat (take 16 (entropy r1)) = (le_nat (take 16 (entropy r)) + 1) mod 2 ^ 128"
    by (intro exI conjI, rule s)
       (simp_all only: e1 next_entropy_props(2,3,4) [OF l] next_entropy_words [OF l])
  from randReader_Read_total [OF assms, of b] obtain r' b' where
    rd: "randReader_Read H r b = Some (Inr (length b, r', b'))"
    and e': "entropy r' = (next_entropy ^^ ((length b + 31) div 32)) (entropy r)" by blast
  have call: "\<exists>r' b'. randReader_Read H r b = Some (Inr (length b, r', b'))
           \<and> length (entropy r') = length (entropy r)
           \<and> drop 16 (entropy r') = drop 16 (entropy r)
           \<and> le_nat (take 16 (entropy r')) =
               (le_nat (take 16 (entropy r)) + (length b + 31) div 32) mod 2 ^ 128"
    by (intro exI conjI, rule rd)
       (simp_all only: e' funpow_next_entropy [OF l, of "(length b + 31) div 32"])
  from step call show ?thesis by (rule conjI)
qed


theorem Read_counter_frame_witness:
  "(\<forall>x. length (H_len x) = 32) \<and> wf_reader r_zero
   \<and> (\<exists>r1 b1 n1. Read_step H_len r_zero (replicate 40 5) 0 = Inr (r1, b1, n1)
        \<and> drop 16 (entropy r1) = replicate 32 0 \<and> le_nat (take 16 (entropy r1)) = 1)
   \<and> (\<exists>r' b'. randReader_Read H_len r_zero (replicate 40 5) = Some (Inr (40, r', b'))
        \<and> drop 16 (entropy r') = replicate 32 0 \<and> le_nat (take 16 (entropy r')) = 2)"
proof -
  have h: "\<forall>x. length (H_len x) = 32" by (simp add: H_len_def)
  have w: "wf_reader r_zero" by (simp add: wf_reader_def r_zero_def)
  have d: "(length (replicate 40 (5::byte)) + 31) div 32 = 2" by simp
  have e: "drop 16 (entropy r_zero) = replicate 32 0" "le_nat (take 16 (entropy r_zero)) = 0"
    by (simp_all add: r_zero_def le_nat_replicate0)
  note t = Read_counter_frame [OF h w, of "replicate 40 5" 0]
  from t obtain r1 b1 n1 where
    "Read_step H_len r_zero (replicate 40 5) 0 = Inr (r1, b1, n1)"
    "drop 16 (entropy r1) = drop 16 (entropy r_zero)"
    "le_nat (take 16 (entropy r1)) = (le_nat (take 16 (entropy r_zero)) + 1) mod 2 ^ 128"
    by blast
  then have a: "\<exists>r1 b1 n1. Read_step H_len r_zero (replicate 40 5) 0 = Inr (r1, b1, n1)
        \<and> drop 16 (entropy r1) = replicate 32 0 \<and> le_nat (take 16 (entropy r1)) = 1"
    by (simp add: e)
  from t obtain r' b' where
    "randReader_Read H_len r_zero (replicate 40 5) = Some (Inr (length (replicate 40 (5::byte)), r', b'))"
    "drop 16 (entropy r') = drop 16 (entropy r_zero)"
    "le_nat (take 16 (entropy r')) =
       (le_nat (take 16 (entropy r_zero)) + (length (replicate 40 (5::byte)) + 31) div 32) mod 2 ^ 128"
    by blast
  then have b: "\<exists>r' b'. randReader_Read H_len r_zero (replicate 40 5) = Some (Inr (40, r', b'))
        \<and> drop 16 (entropy r') = replicate 32 0 \<and> le_nat (take 16 (entropy r')) = 2"
    by (simp add: e d)
  from h w a b show ?thesis by blast
qed

section \<open>\<open>Bytes\<close>\<close>

lemma Read_total:
  assumes "\<forall>x. length (H x) = 32" "wf_reader r"
  shows "\<exists>r'. Read H r b =
        Some (Inr (take (length b) (blocks H (entropy r) ((length b + 31) div 32)), r'))
      \<and> entropy r' = (next_entropy ^^ ((length b + 31) div 32)) (entropy r)"
proof -
  from randReader_Read_total [OF assms, of b] obtain r' where
    "randReader_Read H r b =
        Some (Inr (length b, r', take (length b) (blocks H (entropy r) ((length b + 31) div 32))))"
    and "entropy r' = (next_entropy ^^ ((length b + 31) div 32)) (entropy r)" by blast
  then show ?thesis by (simp add: Read_def)
qed

lemma Read_ok:
  assumes "\<forall>x. length (H x) = 32" "wf_reader r"
  shows "\<exists>b' r'. Read H r b = Some (Inr (b', r')) \<and> length b' = length b \<and> wf_reader r'"
proof -
  from Read_total [OF assms, of b] obtain r' where
    rd: "Read H r b =
        Some (Inr (take (length b) (blocks H (entropy r) ((length b + 31) div 32)), r'))"
    and e: "entropy r' = (next_entropy ^^ ((length b + 31) div 32)) (entropy r)" by blast
  have "wf_reader r'" using assms(2) e by (rule wf_reader_funpow)
  moreover have "length (take (length b) (blocks H (entropy r) ((length b + 31) div 32))) = length b"
    by (rule length_take_blocks [OF assms(1)])
  ultimately show ?thesis using rd by blast
qed

lemma Read8:
  assumes "\<forall>x. length (H x) = 32" "wf_reader r" "length b = 8"
  shows "\<exists>r'. Read H r b = Some (Inr (take 8 (H (next_entropy (entropy r))), r'))
      \<and> entropy r' = next_entropy (entropy r)"
proof -
  have d: "(length b + 31) div 32 = Suc 0"
    by (rule blocks_div_last) (simp_all add: assms(3))
  from Read_total [OF assms(1,2), of b] show ?thesis
    by (simp only: d) (simp add: assms(3))
qed

lemma make_bytes_ok:
  "0 \<le> sint n \<Longrightarrow> nat (sint n) \<le> maxAlloc \<Longrightarrow> make_bytes n = Inr (replicate (nat (sint n)) 0)"
  by (simp add: make_bytes_def)

lemma make_bytes_panic:
  "sint n < 0 \<or> maxAlloc < nat (sint n) \<Longrightarrow> make_bytes n = Inl MakeSliceLen"
  by (simp add: make_bytes_def)

lemma Bytes_ok:
  assumes "\<forall>x. length (H x) = 32" "wf_reader r" "0 \<le> sint n" "nat (sint n) \<le> maxAlloc"
  shows "\<exists>b r'. Bytes H r n = Some (Inr (b, r')) \<and> length b = nat (sint n) \<and> wf_reader r'"
  using Read_ok [OF assms(1,2), of "replicate (nat (sint n)) 0"] assms(3,4)
  by (simp add: Bytes_def make_bytes_ok)

lemma Bytes_panic:
  assumes "sint n < 0 \<or> maxAlloc < nat (sint n)"
  shows "Bytes H r n = Some (Inl MakeSliceLen)"
  using assms by (simp add: Bytes_def make_bytes_panic)

lemma Bytes8:
  assumes "\<forall>x. length (H x) = 32" "wf_reader r"
  shows "\<exists>r'. Bytes H r 8 = Some (Inr (take 8 (H (next_entropy (entropy r))), r'))
      \<and> entropy r' = next_entropy (entropy r)"
  using Read8 [OF assms, of "replicate 8 0"]
  by (simp add: Bytes_def make_bytes_def maxAlloc_def)

lemma Read_loop_empty: "Read_loop H r [] 0 = Some (Inr (0, r, []))"
  by (subst Read_loop.simps) simp

lemma Bytes_0: "Bytes H r 0 = Some (Inr ([], r))"
  by (simp add: Bytes_def make_bytes_def Read_def randReader_Read_def Read_loop_empty)

text \<open>
  Claim C8, as the code has it. \<open>Bytes(n)\<close> has one failure mode, the panic of
  \<open>make([]byte, n)\<close>, and it fails so exactly when \<open>n\<close> is negative or above the
  allocation limit of \<open>make\<close>. For every count \<open>n\<close> from 0 to that limit it returns a
  byte sequence of length exactly \<open>n\<close>, the content of the slice that it has allocated
  with \<open>make\<close> and filled; \<open>Bytes(0)\<close> returns the empty sequence and leaves the
  generator as it was.
\<close>

theorem Bytes_length:
  assumes "\<forall>x. length (H x) = 32" and "wf_reader r"
  shows "((\<exists>e. Bytes H r n = Some (Inl e)) \<longleftrightarrow> sint n < 0 \<or> maxAlloc < nat (sint n))
       \<and> (0 \<le> sint n \<and> nat (sint n) \<le> maxAlloc \<longrightarrow>
            (\<exists>b r'. Bytes H r n = Some (Inr (b, r')) \<and> length b = nat (sint n)))
       \<and> Bytes H r 0 = Some (Inr ([], r))"
proof -
  have ok: "\<exists>b r'. Bytes H r n = Some (Inr (b, r')) \<and> length b = nat (sint n)"
    if "0 \<le> sint n" "nat (sint n) \<le> maxAlloc"
    using Bytes_ok [OF assms that] by blast
  have a: "(\<exists>e. Bytes H r n = Some (Inl e)) \<longleftrightarrow> sint n < 0 \<or> maxAlloc < nat (sint n)"
  proof
    assume "\<exists>e. Bytes H r n = Some (Inl e)"
    then obtain e where e: "Bytes H r n = Some (Inl e)" by blast
    show "sint n < 0 \<or> maxAlloc < nat (sint n)"
    proof (rule ccontr)
      assume "\<not> (sint n < 0 \<or> maxAlloc < nat (sint n))"
      then have "0 \<le> sint n" "nat (sint n) \<le> maxAlloc" by simp_all
      from ok [OF this] e show False by simp
    qed
  next
    assume "sint n < 0 \<or> maxAlloc < nat (sint n)"
    then have "Bytes H r n = Some (Inl MakeSliceLen)" by (rule Bytes_panic)
    then show "\<exists>e. Bytes H r n = Some (Inl e)" by blast
  qed
  have b: "0 \<le> sint n \<and> nat (sint n) \<le> maxAlloc \<longrightarrow>
            (\<exists>b r'. Bytes H r n = Some (Inr (b, r')) \<and> length b = nat (sint n))"
    using ok by blast
  from a b Bytes_0 [of H r] show ?thesis by (intro conjI)
qed

theorem Bytes_length_witness:
  "(\<forall>x. length (H_len x) = 32) \<and> wf_reader r_zero
   \<and> 0 \<le> sint (40 :: go_int) \<and> nat (sint (40 :: go_int)) \<le> maxAlloc
   \<and> (\<exists>b r'. Bytes H_len r_zero 40 = Some (Inr (b, r')) \<and> length b = 40)
   \<and> sint (- 1 :: go_int) < 0 \<and> (\<exists>e. Bytes H_len r_zero (- 1) = Some (Inl e))"
proof -
  have h: "\<forall>x. length (H_len x) = 32" by (simp add: H_len_def)
  have w: "wf_reader r_zero" by (simp add: wf_reader_def r_zero_def)
  have n: "0 \<le> sint (40 :: go_int)" "nat (sint (40 :: go_int)) \<le> maxAlloc"
    by (simp_all add: maxAlloc_def)
  have m: "sint (- 1 :: go_int) < 0" by simp
  have "\<exists>b r'. Bytes H_len r_zero 40 = Some (Inr (b, r')) \<and> length b = 40"
    using Bytes_length [OF h w, of 40] n by simp
  moreover have "\<exists>e. Bytes H_len r_zero (- 1) = Some (Inl e)"
    using Bytes_length [OF h w, of "- 1"] m by blast
  ultimately show ?thesis using h w n m by blast
qed

text \<open>
  A negative count and a count above the allocation limit are values of the parameter
  type \<open>int\<close>, and there \<open>make\<close> panics: \<open>Bytes(-1)\<close> and \<open>Bytes(1<<62)\<close> fail.
\<close>

theorem Bytes_make_panics:
  "Bytes H_len r_zero (- 1) = Some (Inl MakeSliceLen)
   \<and> Bytes H_len r_zero 4611686018427387904 = Some (Inl MakeSliceLen)"
  by (simp add: Bytes_def make_bytes_def maxAlloc_def)

section \<open>\<open>Intn\<close>\<close>

lemma load64_8: "length b = 8 \<Longrightarrow> load64 b 0 = Inr (le64 b)"
  by (simp add: load64_def)

lemma Intn_loop_accept:
  assumes "length b = 8" "le64 b < mx"
  shows "Intn_loop H r b mx = Some (Inr (le64 b, r))"
proof -
  have "\<not> mx \<le> le64 b" using assms(2) by simp
  then show ?thesis using assms(1) by (subst Intn_loop.simps) (simp add: load64_8)
qed

lemma Intn_loop_reject:
  assumes "\<forall>x. length (H x) = 32" "wf_reader r" "length b = 8" "mx \<le> le64 b"
  shows "\<exists>r'. Intn_loop H r b mx = Intn_loop H r' (take 8 (H (entropy r'))) mx
       \<and> entropy r' = next_entropy (entropy r) \<and> wf_reader r'"
proof -
  from Read8 [OF assms(1,2,3)] obtain r' where
    rd: "Read H r b = Some (Inr (take 8 (H (next_entropy (entropy r))), r'))"
    and e: "entropy r' = next_entropy (entropy r)" by blast
  have "Intn_loop H r b mx = Intn_loop H r' (take 8 (H (next_entropy (entropy r)))) mx"
    using assms(3,4) by (subst Intn_loop.simps) (simp add: load64_8 rd)
  then have "Intn_loop H r b mx = Intn_loop H r' (take 8 (H (entropy r'))) mx"
    by (simp only: e)
  moreover have "wf_reader r'"
    using assms(2) e by (simp add: wf_reader_def next_entropy_props(2))
  ultimately show ?thesis using e by blast
qed

lemma Intn_loop_total:
  assumes H: "\<forall>x. length (H x) = 32"
  shows "wf_reader r \<Longrightarrow> b = take 8 (H (entropy r)) \<Longrightarrow>
    le64 (take 8 (H ((next_entropy ^^ k) (entropy r)))) < mx \<Longrightarrow>
    \<exists>x r'. Intn_loop H r b mx = Some (Inr (x, r')) \<and> x < mx \<and> wf_reader r'"
proof (induction k arbitrary: r b)
  case 0
  have "length b = 8" using 0(2) H by simp
  moreover have "le64 b < mx" using 0 by simp
  ultimately have "Intn_loop H r b mx = Some (Inr (le64 b, r))" by (rule Intn_loop_accept)
  with \<open>le64 b < mx\<close> 0(1) show ?case by blast
next
  case (Suc k)
  have lb: "length b = 8" using Suc.prems(2) H by simp
  show ?case
  proof (cases "le64 b < mx")
    case True
    with lb have "Intn_loop H r b mx = Some (Inr (le64 b, r))" by (rule Intn_loop_accept)
    with True Suc.prems(1) show ?thesis by blast
  next
    case False
    then have "mx \<le> le64 b" by simp
    from Intn_loop_reject [OF H Suc.prems(1) lb this] obtain r' where
      eq: "Intn_loop H r b mx = Intn_loop H r' (take 8 (H (entropy r'))) mx"
      and e: "entropy r' = next_entropy (entropy r)" and wf: "wf_reader r'" by blast
    have "(next_entropy ^^ k) (entropy r') = (next_entropy ^^ Suc k) (entropy r)"
      by (simp only: e funpow_Suc_right o_apply)
    then have "le64 (take 8 (H ((next_entropy ^^ k) (entropy r')))) < mx"
      using Suc.prems(3) by simp
    from Suc.IH [OF wf refl this] show ?thesis by (simp only: eq)
  qed
qed

lemma Intn_loop_partial:
  assumes res: "Intn_loop H r b mx = Some res"
  shows "(\<forall>x. length (H x) = 32) \<longrightarrow> wf_reader r \<longrightarrow> length b = 8 \<longrightarrow>
    (\<exists>x r'. res = Inr (x, r') \<and> x < mx \<and> wf_reader r')"
proof (rule Intn_loop.raw_induct [where P = "\<lambda>H r b mx res. (\<forall>x. length (H x) = 32) \<longrightarrow> wf_reader r \<longrightarrow> length b = 8 \<longrightarrow>
    (\<exists>x r'. res = Inr (x, r') \<and> x < mx \<and> wf_reader r')", OF _ res], goal_cases)
  case (1 loop H r b mx res)
  show ?case
  proof (intro impI)
    assume H: "\<forall>x. length (H x) = 32" and wf: "wf_reader r" and lb: "length b = 8"
    have body: "(if mx \<le> le64 b then
            (case Read H r b of
               None \<Rightarrow> None
             | Some (Inl err) \<Rightarrow> Some (Inl err)
             | Some (Inr (b', r')) \<Rightarrow> loop H r' b' mx)
          else Some (Inr (le64 b, r))) = Some res"
      using 1(2) by (simp only: load64_8 [OF lb] sum.case)
    show "\<exists>x r'. res = Inr (x, r') \<and> x < mx \<and> wf_reader r'"
    proof (cases "mx \<le> le64 b")
      case False
      then have "res = Inr (le64 b, r)" using body by simp
      moreover have "le64 b < mx" using False by simp
      ultimately show ?thesis using wf by blast
    next
      case True
      from Read_ok [OF H wf, of b] obtain b' r' where
        rd: "Read H r b = Some (Inr (b', r'))" and lb': "length b' = length b" and wf': "wf_reader r'"
        by blast
      have "loop H r' b' mx = Some res" using body True by (simp add: rd)
      from 1(1) [OF this] H wf' lb' lb show ?thesis by simp
    qed
  qed
qed

lemma Intn_nonpos: "sint n \<le> 0 \<Longrightarrow> Intn H r n = Some (Inl IntnArg)"
  by (simp add: Intn_def)

lemma Intn_unfold:
  assumes "\<forall>x. length (H x) = 32" "wf_reader r" "0 < sint n"
  shows "\<exists>r1. entropy r1 = next_entropy (entropy r) \<and> wf_reader r1 \<and>
     Intn H r n =
       (case Intn_loop H r1 (take 8 (H (entropy r1))) (Intn_max n) of
          None \<Rightarrow> None
        | Some (Inl err) \<Rightarrow> Some (Inl err)
        | Some (Inr (x, r2)) \<Rightarrow> Some (Inr (int_of (x mod uint64_of n), r2)))"
proof -
  from Bytes8 [OF assms(1,2)] obtain r1 where
    b: "Bytes H r 8 = Some (Inr (take 8 (H (next_entropy (entropy r))), r1))"
    and e: "entropy r1 = next_entropy (entropy r)" by blast
  have "wf_reader r1" using assms(2) e by (simp add: wf_reader_def next_entropy_props(2))
  moreover have "Intn H r n =
       (case Intn_loop H r1 (take 8 (H (entropy r1))) (Intn_max n) of
          None \<Rightarrow> None
        | Some (Inl err) \<Rightarrow> Some (Inl err)
        | Some (Inr (x, r2)) \<Rightarrow> Some (Inr (int_of (x mod uint64_of n), r2)))"
    using assms(3) by (simp add: Intn_def b e Let_def)
  ultimately show ?thesis using e by blast
qed

lemma Intn_partial:
  assumes H: "\<forall>x. length (H x) = 32" and wf: "wf_reader r" and n: "0 < sint n"
    and res: "Intn H r n = Some res"
  shows "\<exists>v r'. res = Inr (v, r') \<and> 0 \<le> sint v \<and> sint v < sint n \<and> wf_reader r'"
proof -
  from Intn_unfold [OF H wf n] obtain r1 where
    e: "entropy r1 = next_entropy (entropy r)" and wf1: "wf_reader r1"
    and u: "Intn H r n =
       (case Intn_loop H r1 (take 8 (H (entropy r1))) (Intn_max n) of
          None \<Rightarrow> None
        | Some (Inl err) \<Rightarrow> Some (Inl err)
        | Some (Inr (x, r2)) \<Rightarrow> Some (Inr (int_of (x mod uint64_of n), r2)))" by blast
  from res u obtain lres where
    l: "Intn_loop H r1 (take 8 (H (entropy r1))) (Intn_max n) = Some lres"
    by (cases "Intn_loop H r1 (take 8 (H (entropy r1))) (Intn_max n)") simp_all
  have "length (take 8 (H (entropy r1))) = 8" using H by simp
  with Intn_loop_partial [OF l] H wf1 obtain x r2 where
    x: "lres = Inr (x, r2)" "wf_reader r2" by blast
  have "res = Inr (int_of (x mod uint64_of n), r2)" using res u l x by simp
  with int_of_mod_residue [OF n, of x] x(2) show ?thesis by blast
qed

lemma Intn_total:
  assumes H: "\<forall>x. length (H x) = 32" and wf: "wf_reader r" and n: "0 < sint n"
    and k: "le64 (take 8 (H ((next_entropy ^^ Suc k) (entropy r)))) < Intn_max n"
  shows "\<exists>v r'. Intn H r n = Some (Inr (v, r')) \<and> 0 \<le> sint v \<and> sint v < sint n \<and> wf_reader r'"
proof -
  from Intn_unfold [OF H wf n] obtain r1 where
    e: "entropy r1 = next_entropy (entropy r)" and wf1: "wf_reader r1"
    and u: "Intn H r n =
       (case Intn_loop H r1 (take 8 (H (entropy r1))) (Intn_max n) of
          None \<Rightarrow> None
        | Some (Inl err) \<Rightarrow> Some (Inl err)
        | Some (Inr (x, r2)) \<Rightarrow> Some (Inr (int_of (x mod uint64_of n), r2)))" by blast
  have "(next_entropy ^^ k) (entropy r1) = (next_entropy ^^ Suc k) (entropy r)"
    by (simp only: e funpow_Suc_right o_apply)
  then have "le64 (take 8 (H ((next_entropy ^^ k) (entropy r1)))) < Intn_max n"
    using k by simp
  from Intn_loop_total [OF H wf1 refl this] obtain x r2 where
    l: "Intn_loop H r1 (take 8 (H (entropy r1))) (Intn_max n) = Some (Inr (x, r2))"
    and "wf_reader r2" by blast
  then have "Intn H r n = Some (Inr (int_of (x mod uint64_of n), r2))" using u by simp
  with int_of_mod_residue [OF n, of x] \<open>wf_reader r2\<close> show ?thesis by blast
qed

lemma replicate_8: "replicate 8 x = [x, x, x, x, x, x, x, x]"
  by (simp add: numeral_eq_Suc)

lemma le64_replicate_48: "le64 (replicate 8 48) = 3472328296227680304"
  by (simp only: replicate_8) simp

lemma H_len_funpow:
  "H_len ((next_entropy ^^ k) (entropy r_zero)) = replicate 32 48"
proof -
  have "length ((next_entropy ^^ k) (entropy r_zero)) = 48"
    using funpow_next_entropy [of "entropy r_zero" k] by (simp add: r_zero_def)
  then show ?thesis by (simp add: H_len_def)
qed


text \<open>
  Claim C2. \<open>Intn(n)\<close> panics if and only if \<open>n \<le> 0\<close>; for \<open>n > 0\<close>, whenever
  it returns, the value returned is in \<open>[0, n)\<close>. Moreover it does return as soon as
  one of the draws is below \<open>max\<close>.
\<close>

theorem Intn_panic_and_range:
  assumes "\<forall>x. length (H x) = 32" and "wf_reader r"
  shows "((\<exists>e. Intn H r n = Some (Inl e)) \<longleftrightarrow> sint n \<le> 0)
       \<and> (0 < sint n \<longrightarrow>
            (\<forall>res. Intn H r n = Some res \<longrightarrow>
               (\<exists>v r'. res = Inr (v, r') \<and> 0 \<le> sint v \<and> sint v < sint n)))
       \<and> (0 < sint n \<longrightarrow>
            (\<exists>k. le64 (take 8 (H ((next_entropy ^^ Suc k) (entropy r)))) < Intn_max n) \<longrightarrow>
            (\<exists>v r'. Intn H r n = Some (Inr (v, r'))))"
proof -
  have part: "\<exists>v r'. res = Inr (v, r') \<and> 0 \<le> sint v \<and> sint v < sint n"
    if "0 < sint n" "Intn H r n = Some res" for res
    using Intn_partial [OF assms that] by blast
  have a: "(\<exists>e. Intn H r n = Some (Inl e)) \<longleftrightarrow> sint n \<le> 0"
  proof
    assume "\<exists>e. Intn H r n = Some (Inl e)"
    then obtain e where e: "Intn H r n = Some (Inl e)" by blast
    show "sint n \<le> 0"
    proof (rule ccontr)
      assume "\<not> sint n \<le> 0"
      then have "0 < sint n" by simp
      from part [OF this e] show False by simp
    qed
  next
    assume "sint n \<le> 0"
    then show "\<exists>e. Intn H r n = Some (Inl e)" by (simp add: Intn_nonpos)
  qed
  have b: "0 < sint n \<longrightarrow>
            (\<forall>res. Intn H r n = Some res \<longrightarrow>
               (\<exists>v r'. res = Inr (v, r') \<and> 0 \<le> sint v \<and> sint v < sint n))"
    using part by blast
  have c: "0 < sint n \<longrightarrow>
            (\<exists>k. le64 (take 8 (H ((next_entropy ^^ Suc k) (entropy r)))) < Intn_max n) \<longrightarrow>
            (\<exists>v r'. Intn H r n = Some (Inr (v, r')))"
    using Intn_total [OF assms] by blast
  from a b c show ?thesis by (intro conjI)
qed


theorem Intn_panic_and_range_witness:
  "(\<forall>x. length (H_len x) = 32) \<and> wf_reader r_zero \<and> 0 < sint (5 :: go_int)
   \<and> (\<exists>v r'. Intn H_len r_zero 5 = Some (Inr (v, r')) \<and> 0 \<le> sint v \<and> sint v < 5)
   \<and> ((\<exists>e. Intn H_len r_zero 0 = Some (Inl e)) \<longleftrightarrow> sint (0 :: go_int) \<le> 0)"
proof -
  have h: "\<forall>x. length (H_len x) = 32" by (simp add: H_len_def)
  have w: "wf_reader r_zero" by (simp add: wf_reader_def r_zero_def)
  have n: "0 < sint (5 :: go_int)" by simp
  have "Intn_max 5 = 18446744073709551615"
    by (simp add: Intn_max_def MaxUint64_def uint64_of_def)
  then have k: "\<exists>k. le64 (take 8 (H_len ((next_entropy ^^ Suc k) (entropy r_zero)))) < Intn_max 5"
    by (simp only: H_len_funpow) (simp add: le64_replicate_48)
  note t = Intn_panic_and_range [OF h w, of 5]
  from t n k obtain v r' where v: "Intn H_len r_zero 5 = Some (Inr (v, r'))" by blast
  with t n have "0 \<le> sint v \<and> sint v < 5" by auto
  with v have "\<exists>v r'. Intn H_len r_zero 5 = Some (Inr (v, r')) \<and> 0 \<le> sint v \<and> sint v < 5"
    by blast
  moreover have "(\<exists>e. Intn H_len r_zero 0 = Some (Inl e)) \<longleftrightarrow> sint (0 :: go_int) \<le> 0"
    using Intn_panic_and_range [OF h w, of 0] by blast
  ultimately show ?thesis using h w n by blast
qed

section \<open>\<open>Perm\<close>\<close>

lemma sint_succ:
  fixes i n :: go_int
  assumes "sint i < sint n"
  shows "sint (i + 1) = sint i + 1"
proof -
  have "sint n < 2 ^ 63" using sint_lt [of n] by simp
  moreover have "- (2 ^ 63) \<le> sint i" using sint_ge [of i] by simp
  ultimately have "- (2 ^ 63) \<le> sint i + 1 \<and> sint i + 1 < 2 ^ 63" using assms by simp
  then show ?thesis
    by (simp add: sint_word_ariths signed_take_bit_int_eq_self)
qed

lemma perm_step:
  assumes I: "I < length m" and J: "J \<le> I"
    and M: "mset (map f (take I m)) = M"
  shows "mset (map f (take (Suc I) (m[I := m ! J, J := v]))) = add_mset (f v) M"
proof (cases "J = I")
  case True
  have "take (Suc I) (m[I := v]) = take I (m[I := v]) @ [m[I := v] ! I]"
    using I by (simp add: take_Suc_conv_app_nth)
  also have "\<dots> = take I m @ [v]" using I by simp
  finally show ?thesis using True M by simp
next
  case False
  then have JI: "J < I" using J by simp
  let ?m2 = "m[I := m ! J, J := v]"
  have l2: "I < length ?m2" using I by simp
  have "take (Suc I) ?m2 = take I ?m2 @ [?m2 ! I]"
    using l2 by (rule take_Suc_conv_app_nth)
  moreover have "?m2 ! I = m ! J" using I False by simp
  moreover have "take I ?m2 = (take I m)[J := v]"
    by (simp add: take_update_swap list_update_beyond)
  ultimately have t: "take (Suc I) ?m2 = (take I m)[J := v] @ [m ! J]" by simp
  let ?xs = "map f (take I m)"
  have lx: "J < length ?xs" using JI I by simp
  have nx: "?xs ! J = f (m ! J)" using JI I by simp
  have "mset (map f (take (Suc I) ?m2)) = add_mset (f (m ! J)) (mset (?xs[J := f v]))"
    unfolding t by (simp add: map_update)
  also have "mset (?xs[J := f v]) = add_mset (f v) (mset ?xs - {#?xs ! J#})"
    using lx by (rule mset_update)
  also have "add_mset (f (m ! J)) (add_mset (f v) (mset ?xs - {#?xs ! J#})) = add_mset (f v) (mset ?xs)"
  proof -
    have "?xs ! J \<in># mset ?xs" using lx by (simp only: set_mset_mset nth_mem)
    then have "add_mset (?xs ! J) (mset ?xs - {#?xs ! J#}) = mset ?xs" by simp
    then show ?thesis by (simp only: nx add_mset_commute)
  qed
  finally show ?thesis using M by simp
qed

lemma get_at_ok: "0 \<le> sint j \<Longrightarrow> nat (sint j) < length m \<Longrightarrow> get_at m j = Inr (m ! nat (sint j))"
  by (simp add: get_at_def)

lemma set_at_ok: "0 \<le> sint j \<Longrightarrow> nat (sint j) < length m \<Longrightarrow> set_at m j v = Inr (m[nat (sint j) := v])"
  by (simp add: set_at_def)

lemma Perm_loop_done: "\<not> sint i < sint n \<Longrightarrow> Perm_loop H r m i n = Some (Inr (m, r))"
  by (subst Perm_loop.simps) simp

lemma Perm_loop_round:
  assumes "sint i < sint n" "Intn H r (i + 1) = Some (Inr (j, r1))"
    "0 \<le> sint i" "nat (sint i) < length m" "0 \<le> sint j" "nat (sint j) < length m"
  shows "Perm_loop H r m i n =
    Perm_loop H r1 (m[nat (sint i) := m ! nat (sint j), nat (sint j) := i]) (i + 1) n"
  using assms by (subst Perm_loop.simps) (simp add: get_at_ok set_at_ok)

lemma Perm_loop_None:
  assumes "sint i < sint n" "Intn H r (i + 1) = None"
  shows "Perm_loop H r m i n = None"
  using assms by (subst Perm_loop.simps) simp

lemma Intn_result:
  assumes H: "\<forall>x. length (H x) = 32" and wf: "wf_reader r" and n: "0 < sint n"
    and c: "accepts H \<or> Intn H r n \<noteq> None"
  shows "\<exists>v r'. Intn H r n = Some (Inr (v, r')) \<and> 0 \<le> sint v \<and> sint v < sint n \<and> wf_reader r'"
proof (cases "accepts H")
  case True
  have "16 \<le> length (entropy r)" using wf by (simp add: wf_reader_def)
  with True n obtain k where
    "le64 (take 8 (H ((next_entropy ^^ Suc k) (entropy r)))) < Intn_max n"
    unfolding accepts_def by blast
  then show ?thesis by (rule Intn_total [OF H wf n])
next
  case False
  with c obtain res where res: "Intn H r n = Some res" by blast
  from Intn_partial [OF H wf n res] res show ?thesis by blast
qed

lemma Perm_loop_correct:
  assumes H: "\<forall>x. length (H x) = 32"
  shows "wf_reader r \<Longrightarrow> 1 \<le> sint i \<Longrightarrow> sint i \<le> sint n \<Longrightarrow> length m = nat (sint n) \<Longrightarrow>
    mset (map sint (take (nat (sint i)) m)) = mset (map int [0..<nat (sint i)]) \<Longrightarrow>
    accepts H \<or> Perm_loop H r m i n \<noteq> None \<Longrightarrow>
    \<exists>m' r'. Perm_loop H r m i n = Some (Inr (m', r')) \<and> length m' = nat (sint n)
       \<and> mset (map sint m') = mset (map int [0..<nat (sint n)]) \<and> wf_reader r'"
proof (induction "nat (sint n - sint i)" arbitrary: r m i rule: less_induct)
  case less
  show ?case
  proof (cases "sint i < sint n")
    case False
    then have e: "sint i = sint n" using less.prems(3) by simp
    have "Perm_loop H r m i n = Some (Inr (m, r))" using False by (rule Perm_loop_done)
    moreover have "take (nat (sint i)) m = m" using less.prems(4) e by simp
    ultimately show ?thesis using less.prems(1,4,5) e by simp
  next
    case True
    define I where "I = nat (sint i)"
    have s1: "sint (i + 1) = sint i + 1" using True by (rule sint_succ)
    have p1: "0 < sint (i + 1)" using s1 less.prems(2) by simp
    have IN: "I < length m" using True less.prems(2,4) by (simp add: I_def)
    have c: "accepts H \<or> Intn H r (i + 1) \<noteq> None"
    proof (cases "Intn H r (i + 1)")
      case None
      then have "Perm_loop H r m i n = None" by (rule Perm_loop_None [OF True])
      with less.prems(6) show ?thesis by simp
    next
      case (Some a)
      then show ?thesis by simp
    qed
    from Intn_result [OF H less.prems(1) p1 c] obtain j r1 where
      ij: "Intn H r (i + 1) = Some (Inr (j, r1))" and j0: "0 \<le> sint j"
      and j1: "sint j < sint (i + 1)" and wf1: "wf_reader r1" by blast
    define J where "J = nat (sint j)"
    have JI: "J \<le> I" using j0 j1 s1 by (simp add: I_def J_def)
    define m2 where "m2 = m[I := m ! J, J := i]"
    have i0: "0 \<le> sint i" using less.prems(2) by simp
    have JN: "J < length m" using JI IN by simp
    have round: "Perm_loop H r m i n = Perm_loop H r1 m2 (i + 1) n"
      unfolding m2_def I_def J_def
      by (rule Perm_loop_round [OF True ij i0 IN [unfolded I_def] j0 JN [unfolded J_def]])
    have I1: "nat (sint (i + 1)) = Suc I" using s1 i0 by (simp add: I_def nat_add_distrib)
    have si: "sint i = int I" using i0 by (simp add: I_def)
    have "mset (map sint (take (Suc I) m2)) = add_mset (sint i) (mset (map int [0..<I]))"
      unfolding m2_def using IN JI less.prems(5) [folded I_def] by (rule perm_step)
    also have "\<dots> = mset (map int [0..<Suc I])" by (simp add: si)
    finally have inv: "mset (map sint (take (nat (sint (i + 1))) m2)) = mset (map int [0..<nat (sint (i + 1))])"
      by (simp only: I1)
    have l2: "length m2 = nat (sint n)" using less.prems(4) by (simp add: m2_def)
    have dec: "nat (sint n - sint (i + 1)) < nat (sint n - sint i)" using True s1 by simp
    have b1: "1 \<le> sint (i + 1)" using s1 i0 by simp
    have b2: "sint (i + 1) \<le> sint n" using s1 True by simp
    have c2: "accepts H \<or> Perm_loop H r1 m2 (i + 1) n \<noteq> None"
      using less.prems(6) by (simp only: round)
    from less.hyps [OF dec wf1 b1 b2 l2 inv c2] show ?thesis by (simp only: round)
  qed
qed

lemma make_ints_ok:
  "0 \<le> sint n \<Longrightarrow> 8 * nat (sint n) \<le> maxAlloc \<Longrightarrow>
   make_ints n = Inr (replicate (nat (sint n)) 0)"
  by (simp add: make_ints_def maxAlloc_def)

lemma make_ints_panic:
  "sint n < 0 \<or> maxAlloc < 8 * nat (sint n) \<Longrightarrow> make_ints n = Inl MakeSliceLen"
  by (auto simp: make_ints_def)

lemma Perm_panic:
  assumes "sint n < 0 \<or> maxAlloc < 8 * nat (sint n)"
  shows "Perm H r n = Some (Inl MakeSliceLen)"
  using assms by (simp add: Perm_def make_ints_panic)

lemma Perm_0: "Perm H r 0 = Some (Inr ([], r))"
  by (simp add: Perm_def make_ints_def Perm_loop_done)

lemma Perm_1: "Perm H r 1 = Some (Inr ([0], r))"
  by (simp add: Perm_def make_ints_def maxAlloc_def Perm_loop_done)

lemma Perm_correct:
  assumes H: "\<forall>x. length (H x) = 32" and wf: "wf_reader r" and n: "0 \<le> sint n"
    and sz: "8 * nat (sint n) \<le> maxAlloc"
    and c: "accepts H \<or> Perm H r n \<noteq> None"
  shows "\<exists>m r'. Perm H r n = Some (Inr (m, r')) \<and> length m = nat (sint n)
       \<and> mset (map sint m) = mset (map int [0..<nat (sint n)])"
proof (cases "sint n = 0")
  case True
  then have "n = 0" by (simp only: signed_eq_0_iff)
  then show ?thesis by (simp add: Perm_0)
next
  case False
  then have n1: "1 \<le> sint n" using n by simp
  let ?m = "replicate (nat (sint n)) (0 :: go_int)"
  have P: "Perm H r n = Perm_loop H r ?m 1 n"
    by (simp add: Perm_def make_ints_ok [OF n sz])
  have s1: "sint (1 :: go_int) = 1" by simp
  have a: "1 \<le> sint (1 :: go_int)" by simp
  have b: "sint (1 :: go_int) \<le> sint n" using n1 by simp
  have l: "length ?m = nat (sint n)" by simp
  obtain k where k: "nat (sint n) = Suc k" using n1 by (cases "nat (sint n)") simp_all
  have inv: "mset (map sint (take (nat (sint (1 :: go_int))) ?m)) = mset (map int [0..<nat (sint (1 :: go_int))])"
    by (simp add: k)
  have c': "accepts H \<or> Perm_loop H r ?m 1 n \<noteq> None" using c by (simp only: P)
  from Perm_loop_correct [OF H wf a b l inv c'] show ?thesis by (simp only: P) blast
qed

lemma Intn_max_pos:
  assumes "0 < sint n"
  shows "0 < Intn_max n"
proof -
  have "sint n < 2 ^ 63" using sint_lt [of n] by simp
  moreover have "(2 ^ 64 - 1) mod sint n < sint n" using assms by simp
  ultimately have "0 < (2 ^ 64 - 1) - (2 ^ 64 - 1) mod sint n" by simp
  then have "0 < uint (Intn_max n)" by (simp only: uint_Intn_max [OF assms])
  then show ?thesis by (simp add: word_less_def)
qed

lemma le64_replicate_0: "le64 (replicate k 0) = 0"
  by (induction k) simp_all

lemma accepts_H_zero: "accepts H_zero"
  unfolding accepts_def H_zero_def
  by (simp add: le64_replicate_0 Intn_max_pos)

text \<open>
  Under \<open>H_ctr\<close> the draws are the values of the low counter word, which runs through
  every 64-bit value: each rejection loop meets an accepted draw.
\<close>

lemma funpow_low_word:
  assumes "16 \<le> length e"
  shows "le64 (take 8 ((next_entropy ^^ k) e)) = le64 (take 8 e) + of_nat k"
proof (induction k)
  case 0
  show ?case by simp
next
  case (Suc k)
  have l: "16 \<le> length ((next_entropy ^^ k) e)"
    using funpow_next_entropy [OF assms, of k] assms by simp
  have "le64 (take 8 (next_entropy ((next_entropy ^^ k) e)))
      = le64 (take 8 ((next_entropy ^^ k) e)) + 1"
    by (rule next_entropy_words(1) [OF l])
  then show ?case by (simp add: Suc)
qed

lemma take8_H_ctr:
  assumes "16 \<le> length e"
  shows "take 8 (H_ctr e) = take 8 e"
  using assms by (simp add: H_ctr_def)

lemma length_H_ctr: "length (H_ctr x) = 32"
  by (simp add: H_ctr_def)

lemma accepts_H_ctr: "accepts H_ctr"
  unfolding accepts_def
proof (intro allI impI)
  fix e :: "byte list" and n :: go_int
  assume e: "16 \<le> length e" and n: "0 < sint n"
  define k where "k = unat (- (le64 (take 8 e) + 1))"
  have l: "16 \<le> length ((next_entropy ^^ Suc k) e)"
    using funpow_next_entropy [OF e, of "Suc k"] e by simp
  have "le64 (take 8 ((next_entropy ^^ Suc k) e)) = le64 (take 8 e) + of_nat (Suc k)"
    by (rule funpow_low_word [OF e])
  also have "\<dots> = (le64 (take 8 e) + 1) + of_nat k" by simp
  also have "\<dots> = 0" by (simp add: k_def)
  finally have "le64 (take 8 (H_ctr ((next_entropy ^^ Suc k) e))) = 0"
    by (simp only: take8_H_ctr [OF l])
  then have "le64 (take 8 (H_ctr ((next_entropy ^^ Suc k) e))) < Intn_max n"
    using Intn_max_pos [OF n] by simp
  then show "\<exists>k. le64 (take 8 (H_ctr ((next_entropy ^^ Suc k) e))) < Intn_max n" ..
qed

text \<open>
  Under \<open>H_ff\<close> every draw is \<open>MaxUint64\<close>, which no \<open>max\<close> exceeds: the rejection
  loop draws for ever.
\<close>

lemma le64_replicate_255: "le64 (replicate 8 255) = - 1"
  by (simp only: replicate_8) simp

lemma Intn_loop_H_ff:
  assumes res: "Intn_loop H r b mx = Some res"
  shows "H = H_ff \<longrightarrow> wf_reader r \<longrightarrow> b = replicate 8 255 \<longrightarrow> False"
proof (rule Intn_loop.raw_induct [where P = "\<lambda>H r b mx res.
    H = H_ff \<longrightarrow> wf_reader r \<longrightarrow> b = replicate 8 255 \<longrightarrow> False", OF _ res], goal_cases)
  case (1 loop H r b mx res)
  show ?case
  proof (intro impI)
    assume H: "H = H_ff" and wf: "wf_reader r" and b: "b = replicate 8 255"
    have d: "\<forall>x. length (H x) = 32" by (simp add: H H_ff_def)
    have lb: "length b = 8" by (simp add: b)
    have rej: "mx \<le> le64 b" by (simp add: b le64_replicate_255)
    from Read8 [OF d wf lb] obtain r' where
      rd: "Read H r b = Some (Inr (take 8 (H (next_entropy (entropy r))), r'))"
      and e: "entropy r' = next_entropy (entropy r)" by blast
    have wf': "wf_reader r'"
      using wf e by (simp add: wf_reader_def next_entropy_props(2))
    have b': "take 8 (H (next_entropy (entropy r))) = replicate 8 255"
      by (simp add: H H_ff_def)
    have "loop H r' (replicate 8 255) mx = Some res"
      using 1(2) rej by (simp add: load64_8 [OF lb] rd b')
    from 1(1) [OF this] H wf' show False by simp
  qed
qed

lemma Intn_H_ff_None:
  assumes wf: "wf_reader r" and n: "0 < sint n"
  shows "Intn H_ff r n = None"
proof -
  have d: "\<forall>x. length (H_ff x) = 32" by (simp add: H_ff_def)
  from Intn_unfold [OF d wf n] obtain r1 where
    wf1: "wf_reader r1"
    and u: "Intn H_ff r n =
       (case Intn_loop H_ff r1 (take 8 (H_ff (entropy r1))) (Intn_max n) of
          None \<Rightarrow> None
        | Some (Inl err) \<Rightarrow> Some (Inl err)
        | Some (Inr (x, r2)) \<Rightarrow> Some (Inr (int_of (x mod uint64_of n), r2)))" by blast
  have b: "take 8 (H_ff (entropy r1)) = replicate 8 255" by (simp add: H_ff_def)
  have "Intn_loop H_ff r1 (replicate 8 255) (Intn_max n) = None"
  proof (cases "Intn_loop H_ff r1 (replicate 8 255) (Intn_max n)")
    case None
    then show ?thesis .
  next
    case (Some res)
    from Intn_loop_H_ff [OF Some] wf1 show ?thesis by simp
  qed
  then show ?thesis by (simp only: u b option.case)
qed

lemma Perm_H_ff_2: "wf_reader r \<Longrightarrow> Perm H_ff r 2 = None"
proof -
  assume wf: "wf_reader r"
  have "Intn H_ff r (1 + 1) = None" by (rule Intn_H_ff_None [OF wf]) simp
  then have "Perm_loop H_ff r [0, 0] 1 2 = None" by (intro Perm_loop_None) simp_all
  moreover have "replicate 2 (0 :: go_int) = [0, 0]"
    by (simp add: numeral_2_eq_2)
  then have "make_ints 2 = Inr [0, 0]"
    by (simp add: make_ints_def maxAlloc_def)
  ultimately show ?thesis by (simp add: Perm_def)
qed

text \<open>
  Claim C7, as the code has it. \<open>Perm(n)\<close> panics exactly when \<open>make([]int, n)\<close>
  does: for a negative \<open>n\<close> and for an \<open>n\<close> whose \<open>8 n\<close> bytes exceed the allocation
  limit. For every other \<open>n\<close>, whenever \<open>Perm(n)\<close> returns, it returns a slice of length
  \<open>n\<close> that holds each integer of \<open>[0, n)\<close> exactly once; and it does return when the
  draws let every rejection loop of \<open>Intn\<close> come to an end. \<open>Perm(0)\<close> returns the
  empty slice and \<open>Perm(1)\<close> returns \<open>[0]\<close>, both with the generator as it was: no draw
  is made.
\<close>

theorem Perm_permutation:
  assumes "\<forall>x. length (H x) = 32" and "wf_reader r"
  shows "((\<exists>e. Perm H r n = Some (Inl e)) \<longleftrightarrow> sint n < 0 \<or> maxAlloc < 8 * nat (sint n))
       \<and> (0 \<le> sint n \<and> 8 * nat (sint n) \<le> maxAlloc \<longrightarrow>
            (\<forall>res. Perm H r n = Some res \<longrightarrow>
               (\<exists>m r'. res = Inr (m, r') \<and> length m = nat (sint n) \<and> distinct m
                   \<and> mset (map sint m) = mset (map int [0..<nat (sint n)])))
            \<and> (accepts H \<longrightarrow> (\<exists>m r'. Perm H r n = Some (Inr (m, r')))))
       \<and> Perm H r 0 = Some (Inr ([], r))
       \<and> Perm H r 1 = Some (Inr ([0], r))"
proof -
  have d: "distinct m" if "mset (map sint m) = mset (map int [0..<k])" for m :: "go_int list" and k
  proof -
    have "distinct (map int [0..<k])" by (simp add: distinct_map)
    then have "distinct (map sint m)" using that by (metis mset_eq_imp_distinct_iff)
    then show ?thesis by (simp add: distinct_map)
  qed
  have part: "\<exists>m r'. res = Inr (m, r') \<and> length m = nat (sint n) \<and> distinct m
                \<and> mset (map sint m) = mset (map int [0..<nat (sint n)])"
    if n: "0 \<le> sint n" "8 * nat (sint n) \<le> maxAlloc" and res: "Perm H r n = Some res" for res
  proof -
    from res have "accepts H \<or> Perm H r n \<noteq> None" by simp
    from Perm_correct [OF assms n this] obtain m r' where
      m: "Perm H r n = Some (Inr (m, r'))" "length m = nat (sint n)"
         "mset (map sint m) = mset (map int [0..<nat (sint n)])" by blast
    from m(1) res have "res = Inr (m, r')" by simp
    with m(2,3) d [OF m(3)] show ?thesis by blast
  qed
  have tot: "\<exists>m r'. Perm H r n = Some (Inr (m, r'))"
    if n: "0 \<le> sint n" "8 * nat (sint n) \<le> maxAlloc" and acc: "accepts H"
  proof -
    from acc have "accepts H \<or> Perm H r n \<noteq> None" by simp
    from Perm_correct [OF assms n this] show ?thesis by blast
  qed
  have a: "(\<exists>e. Perm H r n = Some (Inl e)) \<longleftrightarrow> sint n < 0 \<or> maxAlloc < 8 * nat (sint n)"
  proof
    assume "\<exists>e. Perm H r n = Some (Inl e)"
    then obtain e where e: "Perm H r n = Some (Inl e)" by blast
    show "sint n < 0 \<or> maxAlloc < 8 * nat (sint n)"
    proof (rule ccontr)
      assume "\<not> (sint n < 0 \<or> maxAlloc < 8 * nat (sint n))"
      then have "0 \<le> sint n" "8 * nat (sint n) \<le> maxAlloc" by simp_all
      from part [OF this e] show False by simp
    qed
  next
    assume "sint n < 0 \<or> maxAlloc < 8 * nat (sint n)"
    then have "Perm H r n = Some (Inl MakeSliceLen)" by (rule Perm_panic)
    then show "\<exists>e. Perm H r n = Some (Inl e)" by blast
  qed
  have b: "0 \<le> sint n \<and> 8 * nat (sint n) \<le> maxAlloc \<longrightarrow>
            (\<forall>res. Perm H r n = Some res \<longrightarrow>
               (\<exists>m r'. res = Inr (m, r') \<and> length m = nat (sint n) \<and> distinct m
                   \<and> mset (map sint m) = mset (map int [0..<nat (sint n)])))
            \<and> (accepts H \<longrightarrow> (\<exists>m r'. Perm H r n = Some (Inr (m, r'))))"
    using part tot by blast
  from a b Perm_0 [of H r] Perm_1 [of H r] show ?thesis by (intro conjI)
qed

theorem Perm_permutation_witness:
  "(\<forall>x. length (H_ctr x) = 32) \<and> wf_reader r_zero
   \<and> 0 \<le> sint (3 :: go_int) \<and> 8 * nat (sint (3 :: go_int)) \<le> maxAlloc \<and> accepts H_ctr
   \<and> (\<exists>m r'. Perm H_ctr r_zero 3 = Some (Inr (m, r')) \<and> length m = 3 \<and> distinct m
         \<and> mset (map sint m) = {#0, 1, 2#})
   \<and> sint (- 1 :: go_int) < 0 \<and> (\<exists>e. Perm H_ctr r_zero (- 1) = Some (Inl e))"
proof -
  have h: "\<forall>x. length (H_ctr x) = 32" by (simp add: length_H_ctr)
  have w: "wf_reader r_zero" by (simp add: wf_reader_def r_zero_def)
  have n: "0 \<le> sint (3 :: go_int) \<and> 8 * nat (sint (3 :: go_int)) \<le> maxAlloc"
    by (simp add: maxAlloc_def)
  have neg: "sint (- 1 :: go_int) < 0" by simp
  note t = Perm_permutation [OF h w, of 3]
  from t n accepts_H_ctr obtain m r' where p: "Perm H_ctr r_zero 3 = Some (Inr (m, r'))" by blast
  with t n have "length m = nat (sint (3 :: go_int)) \<and> distinct m
      \<and> mset (map sint m) = mset (map int [0..<nat (sint (3 :: go_int))])" by blast
  moreover have "nat (sint (3 :: go_int)) = 3" by simp
  moreover have "mset (map int [0..<3]) = {#0, 1, 2#}" by (simp add: upt_rec)
  ultimately have "length m = 3 \<and> distinct m \<and> mset (map sint m) = {#0, 1, 2#}" by simp
  with p have "\<exists>m r'. Perm H_ctr r_zero 3 = Some (Inr (m, r')) \<and> length m = 3 \<and> distinct m
         \<and> mset (map sint m) = {#0, 1, 2#}" by blast
  moreover have "\<exists>e. Perm H_ctr r_zero (- 1) = Some (Inl e)"
    using Perm_permutation [OF h w, of "- 1"] neg by blast
  ultimately show ?thesis using h w n neg accepts_H_ctr by blast
qed

text \<open>
  The claim as first stated fails on both counts. \<open>Perm(1<<62)\<close> panics in
  \<open>make([]int, n)\<close>, whatever the hash. And that \<open>Perm(n)\<close> returns rests on the values
  of the hash: under \<open>H_ff\<close> the first \<open>Intn(2)\<close> of \<open>Perm(2)\<close> rejects every draw
  and \<open>Perm(2)\<close> does not return.
\<close>

theorem Perm_panics_or_hangs:
  "Perm H_len r_zero 4611686018427387904 = Some (Inl MakeSliceLen)
   \<and> Perm H_ff r_zero 2 = None"
proof
  show "Perm H_len r_zero 4611686018427387904 = Some (Inl MakeSliceLen)"
    by (simp add: Perm_def make_ints_def)
  show "Perm H_ff r_zero 2 = None"
    by (rule Perm_H_ff_2) (simp add: wf_reader_def r_zero_def)
qed

section \<open>\<open>BigIntn\<close>\<close>

lemma foldl_be_nonneg: "0 \<le> a \<Longrightarrow> 0 \<le> foldl (\<lambda>a x. 256 * a + uint x) a (bs :: byte list)"
  by (induction bs arbitrary: a) simp_all

lemma be_int_nonneg: "0 \<le> be_int bs"
  unfolding be_int_def by (rule foldl_be_nonneg) simp

lemma rand_Int_loop_partial:
  assumes res: "rand_Int_loop H r bytes mx = Some res"
  shows "(\<forall>x. length (H x) = 32) \<longrightarrow> wf_reader r \<longrightarrow>
    (\<exists>v r'. res = Inr (v, r') \<and> 0 \<le> v \<and> v < mx)"
proof (rule rand_Int_loop.raw_induct [where P = "\<lambda>H r bytes mx res.
    (\<forall>x. length (H x) = 32) \<longrightarrow> wf_reader r \<longrightarrow>
    (\<exists>v r'. res = Inr (v, r') \<and> 0 \<le> v \<and> v < mx)", OF _ res], goal_cases)
  case (1 loop H r bytes mx res)
  show ?case
  proof (intro impI)
    assume H: "\<forall>x. length (H x) = 32" and wf: "wf_reader r"
    from randReader_Read_total [OF H wf, of bytes] obtain r' bytes' where
      rd: "randReader_Read H r bytes = Some (Inr (length bytes, r', bytes'))"
      and e: "entropy r' = (next_entropy ^^ ((length bytes + 31) div 32)) (entropy r)" by blast
    have wf': "wf_reader r'" using wf e by (rule wf_reader_funpow)
    define bs where "bs = mask_first (top_bits mx) bytes'"
    have body: "(if be_int bs < mx then Some (Inr (be_int bs, r')) else loop H r' bs mx) = Some res"
      using 1(2) by (simp only: rd option.case sum.case prod.case Let_def bs_def)
    show "\<exists>v r'. res = Inr (v, r') \<and> 0 \<le> v \<and> v < mx"
    proof (cases "be_int bs < mx")
      case True
      then have "res = Inr (be_int bs, r')" using body by simp
      with True be_int_nonneg [of bs] show ?thesis by blast
    next
      case False
      then have "loop H r' bs mx = Some res" using body by simp
      from 1(1) [OF this] H wf' show ?thesis by blast
    qed
  qed
qed

lemma rand_Int_loop_first:
  assumes H: "\<forall>x. length (H x) = 32" and wf: "wf_reader r"
    and a: "be_int (mask_first (top_bits mx)
              (take (length bytes) (blocks H (entropy r) ((length bytes + 31) div 32)))) < mx"
  shows "\<exists>v r'. rand_Int_loop H r bytes mx = Some (Inr (v, r'))"
proof -
  from randReader_Read_total [OF H wf, of bytes] obtain r' where
    rd: "randReader_Read H r bytes = Some (Inr (length bytes, r',
           take (length bytes) (blocks H (entropy r) ((length bytes + 31) div 32))))" by blast
  show ?thesis using a by (subst rand_Int_loop.simps) (simp add: rd Let_def)
qed

lemma BigIntn_nonpos: "n \<le> 0 \<Longrightarrow> BigIntn H r n = Some (Inl RandIntArg)"
  by (simp add: BigIntn_def rand_Int_def)


text \<open>
  Claim C9. For every bound \<open>n \<le> 0\<close>, \<open>BigIntn(n)\<close> ends in the panic of the
  sampling primitive and returns no value; for \<open>n > 0\<close>, whenever it returns, the
  result is an integer in \<open>[0, n)\<close>.
\<close>

theorem BigIntn_range:
  assumes "\<forall>x. length (H x) = 32" and "wf_reader r"
  shows "(n \<le> 0 \<longrightarrow> BigIntn H r n = Some (Inl RandIntArg))
       \<and> (0 < n \<longrightarrow>
            (\<forall>res. BigIntn H r n = Some res \<longrightarrow> (\<exists>v r'. res = Inr (v, r') \<and> 0 \<le> v \<and> v < n)))"
proof (intro conjI impI allI)
  assume "n \<le> 0"
  then show "BigIntn H r n = Some (Inl RandIntArg)" by (rule BigIntn_nonpos)
next
  fix res
  assume n: "0 < n" and res: "BigIntn H r n = Some res"
  show "\<exists>v r'. res = Inr (v, r') \<and> 0 \<le> v \<and> v < n"
  proof (cases "bitLen (n - 1) = 0")
    case True
    then have "res = Inr (0, r)" using n res by (simp add: BigIntn_def rand_Int_def)
    with n show ?thesis by simp
  next
    case False
    then have "rand_Int_loop H r (replicate ((bitLen (n - 1) + 7) div 8) 0) n = Some res"
      using n res by (simp add: BigIntn_def rand_Int_def Let_def)
    from rand_Int_loop_partial [OF this] assms show ?thesis by blast
  qed
qed


theorem BigIntn_range_witness:
  "(\<forall>x. length (H_zero x) = 32) \<and> wf_reader r_zero
   \<and> BigIntn H_zero r_zero (- 3) = Some (Inl RandIntArg)
   \<and> (\<exists>v r'. BigIntn H_zero r_zero 10 = Some (Inr (v, r')) \<and> 0 \<le> v \<and> v < 10)"
proof -
  have h: "\<forall>x. length (H_zero x) = 32" by (simp add: H_zero_def)
  have w: "wf_reader r_zero" by (simp add: wf_reader_def r_zero_def)
  have bl: "bitLen 9 = 4" by (simp add: bitLen.simps)
  have k: "(4 + 7) div 8 = (1 :: nat)" by simp
  have "be_int (mask_first (top_bits 10)
              (take (length [0 :: byte]) (blocks H_zero (entropy r_zero) ((length [0 :: byte] + 31) div 32)))) < 10"
    by (simp add: H_zero_def mask_first_def be_int_def numeral_eq_Suc [of "num.Bit0 (num.Bit0 (num.Bit0 (num.Bit0 num.One)))"])
  from rand_Int_loop_first [OF h w this] obtain v r' where
    "rand_Int_loop H_zero r_zero [0] 10 = Some (Inr (v, r'))" by blast
  then have b: "BigIntn H_zero r_zero 10 = Some (Inr (v, r'))"
    by (simp add: BigIntn_def rand_Int_def bl)
  note t = BigIntn_range [OF h w]
  from t [of 10] b have "0 \<le> v \<and> v < 10" by auto
  with b have "\<exists>v r'. BigIntn H_zero r_zero 10 = Some (Inr (v, r')) \<and> 0 \<le> v \<and> v < 10" by blast
  moreover have "BigIntn H_zero r_zero (- 3) = Some (Inl RandIntArg)" using t [of "- 3"] by simp
  ultimately show ?thesis using h w by blast
qed

end
